theory Spec2Isabelle
  imports Main
begin

section \<open>Python values, errors and string primitives\<close>

text \<open>
  The exceptions the code of \<open>pygff/core.py\<close> can raise. A Python function that may raise
  is modelled with the result type \<open>error + 'a\<close>, \<open>Inl\<close> carrying the exception.
  \<open>StopIteration\<close> is listed because the iterator protocol asks for it; \<open>StructError\<close> is
  \<open>struct.error\<close>.
\<close>

datatype error =
    TypeError | NameError | IndexError | ValueError | KeyError | AttributeError
  | UnicodeDecodeError | StructError | StopIteration

text \<open>
  A line read from a handle is a \<open>str\<close> (text mode) or a \<open>bytes\<close> object (the handle of
  \<open>gzip.open(filename, 'rb')\<close>). Characters are bytes: the model reads ASCII files
  without carriage returns, for which Python's character offsets and byte offsets agree.
\<close>

datatype pyline = Str string | Bytes string

abbreviation TAB :: char where "TAB \<equiv> CHR 0x09"
abbreviation NL :: char where "NL \<equiv> CHR 0x0A"

fun py_text :: "pyline \<Rightarrow> string" where
  "py_text (Str s) = s"
| "py_text (Bytes s) = s"

definition py_len :: "pyline \<Rightarrow> nat" where
  "py_len l = length (py_text l)"

text \<open>\<open>line.decode('ascii')\<close>: a \<open>str\<close> has no method \<open>decode\<close>.\<close>

fun decode_ascii :: "pyline \<Rightarrow> error + pyline" where
  "decode_ascii (Bytes s) = (if \<exists>c \<in> set s. digit7 c then Inl UnicodeDecodeError else Inr (Str s))"
| "decode_ascii (Str s) = Inl AttributeError"

text \<open>\<open>line.startswith('#')\<close>: on a \<open>bytes\<close> object the \<open>str\<close> argument is a TypeError.\<close>

fun startswith_hash :: "pyline \<Rightarrow> error + bool" where
  "startswith_hash (Str s) = Inr (case s of [] \<Rightarrow> False | c # _ \<Rightarrow> c = CHR ''#'')"
| "startswith_hash (Bytes s) = Inl TypeError"

text \<open>Whitespace of \<open>str.strip()\<close> and \<open>str.split()\<close> in the ASCII range.\<close>

definition py_isspace :: "char \<Rightarrow> bool" where
  "py_isspace c = (c \<in> set [CHR 0x09, CHR 0x0A, CHR 0x0B, CHR 0x0C, CHR 0x0D,
                            CHR 0x1C, CHR 0x1D, CHR 0x1E, CHR 0x1F, CHR 0x20])"

definition strip :: "string \<Rightarrow> string" where
  "strip s = rev (dropWhile py_isspace (rev (dropWhile py_isspace s)))"

text \<open>\<open>s.split(sep)\<close> for a one-character separator: the result is never empty.\<close>

fun split_when :: "(char \<Rightarrow> bool) \<Rightarrow> string \<Rightarrow> string list" where
  "split_when P [] = [[]]"
| "split_when P (c # cs) =
     (if P c then [] # split_when P cs
      else (case split_when P cs of
              [] \<Rightarrow> [[c]]
            | w # ws \<Rightarrow> (c # w) # ws))"

definition split_on :: "char \<Rightarrow> string \<Rightarrow> string list" where
  "split_on sep s = split_when (\<lambda>c. c = sep) s"

text \<open>\<open>s.split()\<close> without argument: runs of whitespace separate, no empty token.\<close>

definition split_ws :: "string \<Rightarrow> string list" where
  "split_ws s = filter (\<lambda>w. w \<noteq> []) (split_when py_isspace s)"

text \<open>
  \<open>int(s)\<close> on ASCII text: surrounding whitespace, an optional sign, decimal digits
  with single underscores between digits. \<open>None\<close> stands for the ValueError.
\<close>

definition is_digit :: "char \<Rightarrow> bool" where
  "is_digit c = (48 \<le> (of_char c :: nat) \<and> (of_char c :: nat) \<le> 57)"

fun int_digits :: "bool \<Rightarrow> nat \<Rightarrow> string \<Rightarrow> nat option" where
  "int_digits after_digit acc [] = (if after_digit then Some acc else None)"
| "int_digits after_digit acc (c # cs) =
     (if is_digit c then int_digits True (10 * acc + (of_char c - 48)) cs
      else if c = CHR ''_'' \<and> after_digit then int_digits False acc cs
      else None)"

definition py_int :: "string \<Rightarrow> int option" where
  "py_int s =
     (case strip s of
        [] \<Rightarrow> None
      | c # cs \<Rightarrow>
          if c = CHR ''-'' then map_option (\<lambda>n. - int n) (int_digits False 0 cs)
          else if c = CHR ''+'' then map_option int (int_digits False 0 cs)
          else map_option int (int_digits False 0 (c # cs)))"

text \<open>\<open>xs[i]\<close> for a non-negative index.\<close>

definition py_nth :: "'a list \<Rightarrow> nat \<Rightarrow> error + 'a" where
  "py_nth xs i = (if i < length xs then Inr (xs ! i) else Inl IndexError)"

text \<open>String comparison \<open><\<close>: lexicographic on code points.\<close>

fun py_str_less :: "string \<Rightarrow> string \<Rightarrow> bool" where
  "py_str_less [] [] = False"
| "py_str_less [] (y # ys) = True"
| "py_str_less (x # xs) [] = False"
| "py_str_less (x # xs) (y # ys) =
     ((of_char x :: nat) < of_char y \<or> (x = y \<and> py_str_less xs ys))"

section \<open>File handles\<close>

text \<open>
  A file on disk: its bytes, and what \<open>gzip.open\<close> reads from it (the inflated stream;
  the decompressor is the library's and is taken as given).
\<close>

record gff_path =
  raw :: string
  inflated :: string

text \<open>An open handle: the stream it reads, the read cursor, and whether it yields \<open>bytes\<close>.\<close>

record handle =
  content :: string
  cursor :: nat
  binary :: bool

definition open_text :: "gff_path \<Rightarrow> handle" where
  "open_text f = \<lparr>content = raw f, cursor = 0, binary = False\<rparr>"

definition gzip_open :: "gff_path \<Rightarrow> handle" where
  "gzip_open f = \<lparr>content = inflated f, cursor = 0, binary = True\<rparr>"

definition seek :: "handle \<Rightarrow> nat \<Rightarrow> handle" where
  "seek h n = h\<lparr>cursor := n\<rparr>"

text \<open>One line of a buffer, its terminator included; empty only at the end of the stream.\<close>

fun takeline :: "string \<Rightarrow> string" where
  "takeline [] = []"
| "takeline (c # cs) = (if c = NL then [c] else c # takeline cs)"

lemma length_takeline: "length (takeline s) \<le> length s"
  by (induction s) auto

lemma takeline_empty: "takeline s = [] \<longleftrightarrow> s = []"
  by (cases s) auto

definition as_line :: "handle \<Rightarrow> string \<Rightarrow> pyline" where
  "as_line h s = (if binary h then Bytes s else Str s)"

definition readline :: "handle \<Rightarrow> pyline \<times> handle" where
  "readline h =
     (let l = takeline (drop (cursor h) (content h))
      in (as_line h l, h\<lparr>cursor := cursor h + length l\<rparr>))"

text \<open>The lines a \<open>for line in handle\<close> loop sees when it runs to the end of a buffer.\<close>

function lines_of :: "string \<Rightarrow> string list" where
  "lines_of s = (if s = [] then [] else takeline s # lines_of (drop (length (takeline s)) s))"
  by pat_completeness auto
termination
  by (relation "measure length") (auto simp: takeline_empty)

declare lines_of.simps [simp del]

definition readlines :: "handle \<Rightarrow> pyline list" where
  "readlines h = map (as_line h) (lines_of (drop (cursor h) (content h)))"

definition at_eof :: "handle \<Rightarrow> handle" where
  "at_eof h = h\<lparr>cursor := max (cursor h) (length (content h))\<rparr>"

section \<open>Format detection\<close>

text \<open>
  \<open>_is_zipped\<close>: unpack three bytes from the head of the file (\<open>struct.error\<close> when there
  are fewer) and compare them with \<open>(31, 139, 8)\<close>.
\<close>

definition is_zipped :: "gff_path \<Rightarrow> error + bool" where
  "is_zipped f =
     (if length (raw f) < 3 then Inl StructError
      else Inr (take 3 (raw f) = [CHR 0x1F, CHR 0x8B, CHR 0x08]))"

text \<open>
  \<open>_is_version_3\<close>: the second whitespace-separated token of the first line, as an
  integer, compared with 3. (\<open>int\<close> accepts \<open>bytes\<close> as it accepts \<open>str\<close>; the whitespace
  of \<open>bytes\<close> lacks the four separators 0x1C to 0x1F, which is not modelled.)
\<close>

definition is_version_3 :: "gff_path \<Rightarrow> bool \<Rightarrow> error + bool" where
  "is_version_3 f gzipped =
     (let gff = (if gzipped then gzip_open f else open_text f);
          line = py_text (fst (readline gff))
      in case py_nth (split_ws (strip line)) 1 of
           Inl e \<Rightarrow> Inl e
         | Inr tok \<Rightarrow>
             (case py_int tok of
                None \<Rightarrow> Inl ValueError
              | Some version \<Rightarrow> Inr (version = 3)))"

section \<open>Records\<close>

text \<open>
  \<open>GffEntry\<close> keeps the tab-separated columns of a line: all but the last in
  \<open>_features\<close>, the last in \<open>_attrs\<close>, and the decoded attribute column. The values of
  the attribute dictionary are kept as written (\<open>unquote\<close>, the library's percent-decoding,
  is total and is not applied here).
\<close>

record gff_entry =
  features :: "string list"
  attrs :: string
  attributes :: "(string \<times> string list) list"

text \<open>\<open>attr_dict.setdefault(tag, []).append(val)\<close> on an insertion-ordered dictionary.\<close>

fun dict_append :: "(string \<times> string list) list \<Rightarrow> string \<Rightarrow> string \<Rightarrow> (string \<times> string list) list" where
  "dict_append [] tag val = [(tag, [val])]"
| "dict_append ((k, vs) # d) tag val =
     (if k = tag then (k, vs @ [val]) # d else (k, vs) # dict_append d tag val)"

text \<open>\<open>tag, values = attr.split('=')\<close> raises ValueError unless there are exactly two parts.\<close>

fun parse_attrs_loop :: "string list \<Rightarrow> (string \<times> string list) list \<Rightarrow> error + (string \<times> string list) list" where
  "parse_attrs_loop [] d = Inr d"
| "parse_attrs_loop (attr # rest) d =
     (case split_on CHR ''='' attr of
        [tag, vals] \<Rightarrow> parse_attrs_loop rest (foldl (\<lambda>d' v. dict_append d' tag v) d (split_on CHR '','' vals))
      | _ \<Rightarrow> Inl ValueError)"

definition parse_attrs :: "string \<Rightarrow> error + (string \<times> string list) list" where
  "parse_attrs attribute_column = parse_attrs_loop (split_on CHR '';'' attribute_column) []"

definition GffEntry_init :: "string \<Rightarrow> error + gff_entry" where
  "GffEntry_init line =
     (let parts = split_on TAB (strip line)
      in case parse_attrs (last parts) of
           Inl e \<Rightarrow> Inl e
         | Inr d \<Rightarrow> Inr \<lparr>features = butlast parts, attrs = last parts, attributes = d\<rparr>)"

definition int_field :: "string list \<Rightarrow> nat \<Rightarrow> error + int" where
  "int_field fs i =
     (case py_nth fs i of
        Inl e \<Rightarrow> Inl e
      | Inr x \<Rightarrow> (case py_int x of None \<Rightarrow> Inl ValueError | Some v \<Rightarrow> Inr v))"

definition entry_seqid :: "gff_entry \<Rightarrow> error + string" where
  "entry_seqid e = py_nth (features e) 0"

definition entry_type :: "gff_entry \<Rightarrow> error + string" where
  "entry_type e = py_nth (features e) 2"

definition entry_start :: "gff_entry \<Rightarrow> error + int" where
  "entry_start e = int_field (features e) 3"

definition entry_end :: "gff_entry \<Rightarrow> error + int" where
  "entry_end e = int_field (features e) 4"

section \<open>Threshold estimation\<close>

text \<open>\<open>OrderedSet.add\<close>: a key already present is ignored, a new one goes to the end.\<close>

definition OrderedSet_add :: "int list \<Rightarrow> int \<Rightarrow> int list" where
  "OrderedSet_add xs k = (if k \<in> set xs then xs else xs @ [k])"

text \<open>\<open>diffs.setdefault(seqid, OrderedSet()).add(start)\<close>.\<close>

fun diffs_add :: "(string \<times> int list) list \<Rightarrow> string \<Rightarrow> int \<Rightarrow> (string \<times> int list) list" where
  "diffs_add [] seqid start = [(seqid, OrderedSet_add [] start)]"
| "diffs_add ((k, xs) # d) seqid start =
     (if k = seqid then (k, OrderedSet_add xs start) # d else (k, xs) # diffs_add d seqid start)"

text \<open>
  \<open>pd.Series(xs).diff(periods = p).dropna()\<close> for \<open>p \<ge> 0\<close>: the entries \<open>xs[i] - xs[i-p]\<close>
  for \<open>i \<ge> p\<close>; the first \<open>p\<close> entries are NaN and are dropped. A \<open>bool\<close> passed as
  \<open>periods\<close> counts as the integer 0 or 1 (the library of the code's time converts it
  with \<open>int\<close>); with \<open>p = 0\<close> every difference is \<open>xs[i] - xs[i]\<close>.
\<close>

definition series_diff :: "nat \<Rightarrow> int list \<Rightarrow> int list" where
  "series_diff p xs = map (\<lambda>i. xs ! i - xs ! (i - p)) [p..<length xs]"

text \<open>
  The mean of an empty series is the float \<open>nan\<close>; what \<open>.astype(int)\<close> does on it is the
  library's business (a plain float has no such method). It is named here so that
  the results below that do not unfold it hold whatever it is.
\<close>

definition nan_astype_int :: "error + int" where
  "nan_astype_int = Inl AttributeError"

text \<open>
  \<open>.mean().astype(int)\<close>: the arithmetic mean, truncated toward zero. The mean is taken
  exactly (the float rounding of the library is not modelled).
\<close>

definition mean_astype_int :: "int list \<Rightarrow> error + int" where
  "mean_astype_int ds =
     (if ds = [] then nan_astype_int
      else let s = sum_list ds; n = int (length ds)
           in Inr (if 0 \<le> s then s div n else - ((- s) div n)))"

fun get_average_diffs :: "(string \<times> int list) list \<Rightarrow> nat \<Rightarrow> error + (string \<times> int) list" where
  "get_average_diffs [] periods = Inr []"
| "get_average_diffs ((seqid, unqiq_starts) # rest) periods =
     (case mean_astype_int (series_diff periods unqiq_starts) of
        Inl e \<Rightarrow> Inl e
      | Inr t \<Rightarrow>
          (case get_average_diffs rest periods of
             Inl e \<Rightarrow> Inl e
           | Inr thresholds \<Rightarrow> Inr ((seqid, t) # thresholds)))"

text \<open>
  The body of the loop of \<open>_get_thresholds\<close>. \<open>seqid, source, type, start, *others\<close> needs
  four columns (ValueError otherwise), and \<open>int(start)\<close> a number.
\<close>

definition thresholds_step :: "bool \<Rightarrow> (string \<times> int list) list \<Rightarrow> pyline \<Rightarrow> error + (string \<times> int list) list" where
  "thresholds_step gzipped diffs line0 =
     (case (if gzipped then decode_ascii line0 else Inr line0) of
        Inl e \<Rightarrow> Inl e
      | Inr line \<Rightarrow>
          if py_text line = [] then Inr diffs
          else (case startswith_hash line of
                  Inl e \<Rightarrow> Inl e
                | Inr True \<Rightarrow> Inr diffs
                | Inr False \<Rightarrow>
                    (case split_on TAB (strip (py_text line)) of
                       seqid # source # type # start # others \<Rightarrow>
                         (case py_int start of
                            None \<Rightarrow> Inl ValueError
                          | Some v \<Rightarrow> Inr (diffs_add diffs seqid v))
                     | _ \<Rightarrow> Inl ValueError)))"

fun thresholds_loop :: "bool \<Rightarrow> (string \<times> int list) list \<Rightarrow> pyline list \<Rightarrow> error + (string \<times> int list) list" where
  "thresholds_loop gzipped diffs [] = Inr diffs"
| "thresholds_loop gzipped diffs (line # rest) =
     (case thresholds_step gzipped diffs line of
        Inl e \<Rightarrow> Inl e
      | Inr diffs' \<Rightarrow> thresholds_loop gzipped diffs' rest)"

definition get_thresholds :: "handle \<Rightarrow> nat \<Rightarrow> bool \<Rightarrow> error + ((string \<times> int) list \<times> handle)" where
  "get_thresholds h periods gzipped =
     (case thresholds_loop gzipped [] (readlines (seek h 0)) of
        Inl e \<Rightarrow> Inl e
      | Inr diffs \<Rightarrow>
          (case get_average_diffs diffs periods of
             Inl e \<Rightarrow> Inl e
           | Inr thresholds \<Rightarrow> Inr (thresholds, seek h 0)))"

section \<open>The sparse index\<close>

text \<open>
  \<open>index[seqid]\<close> is \<open>{'start': OrderedDict(), 'pos': OrderedDict()}\<close>, both keyed by
  the local index. Dictionaries are association lists in insertion order.
\<close>

record container =
  c_start :: "(nat \<times> int) list"
  c_pos :: "(nat \<times> nat) list"

type_synonym sparse_index = "(string \<times> container) list"

definition setdefault :: "('k \<times> 'v) list \<Rightarrow> 'k \<Rightarrow> 'v \<Rightarrow> ('k \<times> 'v) list" where
  "setdefault d k v = (if k \<in> fst ` set d then d else d @ [(k, v)])"

fun container_update :: "sparse_index \<Rightarrow> string \<Rightarrow> (container \<Rightarrow> container) \<Rightarrow> sparse_index" where
  "container_update [] seqid f = []"
| "container_update ((k, c) # rest) seqid f =
     (if k = seqid then (k, f c) # rest else (k, c) # container_update rest seqid f)"

record gen_state =
  index :: sparse_index
  curr_pos :: nat
  curr_idx :: nat
  curr_threshold :: "int option"
  prev_start :: "int option"

text \<open>
  The three statements under \<open>if prev_start is None or ...\<close> that store an entry, and
  the two that follow them.
\<close>

definition emit :: "gen_state \<Rightarrow> string \<Rightarrow> int \<Rightarrow> gen_state" where
  "emit st seqid start =
     st\<lparr>index := container_update (setdefault (index st) seqid \<lparr>c_start = [], c_pos = []\<rparr>) seqid
                    (\<lambda>c. \<lparr>c_start = setdefault (c_start c) (curr_idx st) start,
                          c_pos = setdefault (c_pos c) (curr_idx st) (curr_pos st)\<rparr>),
        curr_idx := curr_idx st + 1,
        prev_start := Some start\<rparr>"

text \<open>
  The body of the loop of \<open>_gen_index\<close>. Comparing with a threshold that is still
  \<open>None\<close> would be a TypeError; \<open>thresholds[seqid]\<close> on a missing key is a KeyError.
\<close>

definition gen_index_step :: "(string \<times> int) list \<Rightarrow> bool \<Rightarrow> gen_state \<Rightarrow> pyline \<Rightarrow> error + gen_state" where
  "gen_index_step thresholds gzipped st line0 =
     (case (if gzipped then decode_ascii line0 else Inr line0) of
        Inl e \<Rightarrow> Inl e
      | Inr line \<Rightarrow>
          (case startswith_hash line of
             Inl e \<Rightarrow> Inl e
           | Inr hash \<Rightarrow>
               if hash \<or> py_text line = [] then Inr (st\<lparr>curr_pos := curr_pos st + py_len line\<rparr>)
               else
                 let f_line = split_on TAB (strip (py_text line)) in
                 (case py_nth f_line 0 of
                    Inl e \<Rightarrow> Inl e
                  | Inr seqid \<Rightarrow>
                      (case int_field f_line 3 of
                         Inl e \<Rightarrow> Inl e
                       | Inr start \<Rightarrow>
                           (case (if seqid \<notin> fst ` set (index st)
                                  then (case map_of thresholds seqid of
                                          None \<Rightarrow> Inl KeyError
                                        | Some t \<Rightarrow> Inr (st\<lparr>prev_start := None, curr_idx := 0,
                                                              curr_threshold := Some t\<rparr>))
                                  else Inr st) of
                              Inl e \<Rightarrow> Inl e
                            | Inr st1 \<Rightarrow>
                                (case (case prev_start st1 of
                                         None \<Rightarrow> Inr True
                                       | Some p \<Rightarrow>
                                           (case curr_threshold st1 of
                                              None \<Rightarrow> Inl TypeError
                                            | Some t \<Rightarrow> Inr (start - p > t))) of
                                   Inl e \<Rightarrow> Inl e
                                 | Inr go \<Rightarrow>
                                     let st2 = (if go then emit st1 seqid start else st1)
                                     in Inr (st2\<lparr>curr_pos := curr_pos st2 + py_len line\<rparr>)))))))"

fun gen_index_loop :: "(string \<times> int) list \<Rightarrow> bool \<Rightarrow> gen_state \<Rightarrow> pyline list \<Rightarrow> error + gen_state" where
  "gen_index_loop thresholds gzipped st [] = Inr st"
| "gen_index_loop thresholds gzipped st (line # rest) =
     (case gen_index_step thresholds gzipped st line of
        Inl e \<Rightarrow> Inl e
      | Inr st' \<Rightarrow> gen_index_loop thresholds gzipped st' rest)"

definition gen_init :: gen_state where
  "gen_init = \<lparr>index = [], curr_pos = 0, curr_idx = 0, curr_threshold = None, prev_start = None\<rparr>"

text \<open>\<open>_gen_index\<close>: the handle is left where the loop ends, at the end of the stream.\<close>

definition gen_index :: "handle \<Rightarrow> nat \<Rightarrow> bool \<Rightarrow> error + (sparse_index \<times> handle)" where
  "gen_index fileobject periods gzipped =
     (case get_thresholds fileobject periods gzipped of
        Inl e \<Rightarrow> Inl e
      | Inr (thresholds, h) \<Rightarrow>
          (case gen_index_loop thresholds gzipped gen_init (readlines h) of
             Inl e \<Rightarrow> Inl e
           | Inr st \<Rightarrow> Inr (index st, at_eof h)))"

section \<open>Region fetch\<close>

text \<open>\<open>bisect.bisect_right(a, x)\<close> with its default bounds \<open>lo = 0\<close>, \<open>hi = len(a)\<close>.\<close>

function bisect_right_loop :: "int list \<Rightarrow> int \<Rightarrow> nat \<Rightarrow> nat \<Rightarrow> nat" where
  "bisect_right_loop a x lo hi =
     (if lo < hi
      then (let mid = (lo + hi) div 2
            in if x < a ! mid then bisect_right_loop a x lo mid
               else bisect_right_loop a x (mid + 1) hi)
      else lo)"
  by pat_completeness auto
termination
  by (relation "measure (\<lambda>(a, x, lo, hi). hi - lo)") auto

declare bisect_right_loop.simps [simp del]

definition bisect_right :: "int list \<Rightarrow> int \<Rightarrow> nat" where
  "bisect_right a x = bisect_right_loop a x 0 (length a)"

text \<open>
  \<open>_find_le\<close>: the offset stored under key \<open>i - 1\<close> (KeyError when that key is missing),
  or ValueError when nothing lies at or before \<open>start\<close>.
\<close>

definition find_le :: "container \<Rightarrow> int \<Rightarrow> error + nat" where
  "find_le cont start =
     (let i = bisect_right (map snd (c_start cont)) start
      in if i \<noteq> 0
         then (case map_of (c_pos cont) (i - 1) of
                 None \<Rightarrow> Inl KeyError
               | Some p \<Rightarrow> Inr p)
         else Inl ValueError)"

text \<open>An open \<open>GffFile\<close>: its handle and its index.\<close>

record session =
  s_handle :: handle
  s_index :: sparse_index

definition remaining :: "session \<Rightarrow> nat" where
  "remaining s = length (content (s_handle s)) - cursor (s_handle s)"

text \<open>
  \<open>GffFile.__next__\<close>: the loop over the handle returns the record of the first line
  that does not start with \<open>#\<close>. When the handle is exhausted the loop ends and the
  method returns \<open>None\<close> (the value \<open>Inr None\<close>); no exception is raised.
\<close>

function GffFile_next :: "session \<Rightarrow> (error + gff_entry option) \<times> session" where
  "GffFile_next s =
     (case readline (s_handle s) of
        (line0, h') \<Rightarrow>
          if py_text line0 = [] then (Inr None, s\<lparr>s_handle := h'\<rparr>)
          else (case (case line0 of Bytes b \<Rightarrow> decode_ascii line0 | Str t \<Rightarrow> Inr line0) of
                  Inl e \<Rightarrow> (Inl e, s\<lparr>s_handle := h'\<rparr>)
                | Inr line \<Rightarrow>
                    (case startswith_hash line of
                       Inl e \<Rightarrow> (Inl e, s\<lparr>s_handle := h'\<rparr>)
                     | Inr True \<Rightarrow> GffFile_next (s\<lparr>s_handle := h'\<rparr>)
                     | Inr False \<Rightarrow>
                         (case GffEntry_init (py_text line) of
                            Inl e \<Rightarrow> (Inl e, s\<lparr>s_handle := h'\<rparr>)
                          | Inr entry \<Rightarrow> (Inr (Some entry), s\<lparr>s_handle := h'\<rparr>)))))"
  by pat_completeness auto

lemma readline_advances:
  assumes "readline h = (l, h')" and "py_text l \<noteq> []"
  shows "length (content h') - cursor h' < length (content h) - cursor h"
proof -
  let ?t = "takeline (drop (cursor h) (content h))"
  from assms have l: "py_text l = ?t" and h': "h' = h\<lparr>cursor := cursor h + length ?t\<rparr>"
    by (auto simp: readline_def as_line_def Let_def split: if_splits)
  from assms(2) l have "?t \<noteq> []" by simp
  moreover have "length ?t \<le> length (content h) - cursor h"
    using length_takeline [of "drop (cursor h) (content h)"] by simp
  ultimately show ?thesis using h' by (cases ?t) auto
qed

termination GffFile_next
  by (relation "measure remaining") (auto simp: remaining_def intro: readline_advances [OF sym])

declare GffFile_next.simps [simp del]

lemma GffFile_next_advances:
  "GffFile_next s = (Inr (Some entry), s') \<Longrightarrow> remaining s' < remaining s"
proof (induction s rule: GffFile_next.induct)
  case (1 s)
  obtain l h' where rl: "readline (s_handle s) = (l, h')" by (cases "readline (s_handle s)")
  let ?s1 = "s\<lparr>s_handle := h'\<rparr>"
  from "1.prems" rl have ne: "py_text l \<noteq> []"
    by (auto simp: GffFile_next.simps [of s])
  have adv: "remaining ?s1 < remaining s"
    using readline_advances [OF rl ne] by (simp add: remaining_def)
  obtain line where dec: "(case l of Str t \<Rightarrow> Inr l | Bytes b \<Rightarrow> decode_ascii l) = Inr line"
    using "1.prems" rl ne by (auto simp: GffFile_next.simps [of s] split: sum.splits)
  obtain hash where hs: "startswith_hash line = Inr hash"
    using "1.prems" rl ne dec by (auto simp: GffFile_next.simps [of s] split: sum.splits)
  show ?case
  proof (cases hash)
    case True
    with "1.prems" rl ne dec hs have "GffFile_next ?s1 = (Inr (Some entry), s')"
      by (simp add: GffFile_next.simps [of s])
    with "1.IH" [OF rl [symmetric] ne dec] hs True have "remaining s' < remaining ?s1"
      by simp
    with adv show ?thesis by simp
  next
    case False
    with "1.prems" rl ne dec hs have "s' = ?s1"
      by (auto simp: GffFile_next.simps [of s] split: sum.splits)
    with adv show ?thesis by simp
  qed
qed

text \<open>
  The loop of \<open>GffFile.fetch\<close>, from the position the handle was sought to. The result
  is what the generator yields and how it ends: \<open>None\<close> for a \<open>break\<close>, \<open>Some e\<close> for an
  exception. At the end of the stream \<open>next(self)\<close> is \<open>None\<close> and \<open>entry.seqid\<close> is an
  AttributeError.
\<close>

function fetch_loop :: "session \<Rightarrow> string \<Rightarrow> int \<Rightarrow> int \<Rightarrow> string option \<Rightarrow> (gff_entry list \<times> error option) \<times> session" where
  "fetch_loop s seqid start end type =
     (case GffFile_next s of
        (Inl e, s') \<Rightarrow> (([], Some e), s')
      | (Inr None, s') \<Rightarrow> (([], Some AttributeError), s')
      | (Inr (Some entry), s') \<Rightarrow>
          (case entry_seqid entry of
             Inl e \<Rightarrow> (([], Some e), s')
           | Inr e_seqid \<Rightarrow>
               if e_seqid = seqid then
                 (case entry_end entry of
                    Inl e \<Rightarrow> (([], Some e), s')
                  | Inr e_end \<Rightarrow>
                      if e_end < start then fetch_loop s' seqid start end type
                      else
                        (case entry_start entry of
                           Inl e \<Rightarrow> (([], Some e), s')
                         | Inr e_start \<Rightarrow>
                             if e_start \<ge> end then (([], None), s')
                             else
                               (case (case type of
                                        None \<Rightarrow> Inr True
                                      | Some t \<Rightarrow>
                                          (case entry_type entry of
                                             Inl e \<Rightarrow> Inl e
                                           | Inr e_type \<Rightarrow> Inr (e_type = t))) of
                                  Inl e \<Rightarrow> (([], Some e), s')
                                | Inr False \<Rightarrow> fetch_loop s' seqid start end type
                                | Inr True \<Rightarrow>
                                    (case fetch_loop s' seqid start end type of
                                       ((ys, r), s'') \<Rightarrow> ((entry # ys, r), s'')))))
               else if py_str_less e_seqid seqid then fetch_loop s' seqid start end type
               else (([], None), s')))"
  by pat_completeness auto
termination
  by (relation "measure (\<lambda>(s, seqid, start, end, type). remaining s)")
     (auto intro: GffFile_next_advances [OF sym])

declare fetch_loop.simps [simp del]

definition GffFile_fetch :: "session \<Rightarrow> string \<Rightarrow> int \<Rightarrow> int \<Rightarrow> string option \<Rightarrow> (gff_entry list \<times> error option) \<times> session" where
  "GffFile_fetch s seqid start end type =
     (case map_of (s_index s) seqid of
        None \<Rightarrow> (([], Some KeyError), s)
      | Some cont \<Rightarrow>
          (case find_le cont start of
             Inl e \<Rightarrow> (([], Some e), s)
           | Inr start_offset \<Rightarrow>
               fetch_loop (s\<lparr>s_handle := seek (s_handle s) start_offset\<rparr>) seqid start end type))"

section \<open>Opening a file\<close>

text \<open>
  \<open>GffFile.__init__(filename, period)\<close>. The error message of the version check
  formats the name \<open>version\<close>, which is not defined there: evaluating it is a NameError.
  The call \<open>_gen_index(self._handle, gzipped)\<close> binds \<open>gzipped\<close> to the parameter
  \<open>periods\<close> (\<open>False\<close> is 0, \<open>True\<close> is 1) and leaves the parameter \<open>gzipped\<close> of
  \<open>_gen_index\<close> at its default \<open>False\<close>; \<open>period\<close> is not used.
\<close>

definition GffFile_init :: "gff_path \<Rightarrow> nat \<Rightarrow> error + session" where
  "GffFile_init filename period =
     (case is_zipped filename of
        Inl e \<Rightarrow> Inl e
      | Inr gzipped \<Rightarrow>
          let h = (if gzipped then gzip_open filename else open_text filename) in
          (case is_version_3 filename gzipped of
             Inl e \<Rightarrow> Inl e
           | Inr v3 \<Rightarrow>
               if \<not> v3 then Inl NameError
               else (case gen_index h (if gzipped then 1 else 0) False of
                       Inl e \<Rightarrow> Inl e
                     | Inr (idx, h') \<Rightarrow> Inr \<lparr>s_handle = h', s_index = idx\<rparr>)))"

section \<open>A file as a sequence of records\<close>

text \<open>
  What the passes take from a line of a text file: a line starting with \<open>#\<close> is a
  comment; of any other line the passes read the first and the fourth tab-separated
  column. These views are used to state the properties below.
\<close>

definition is_comment :: "string \<Rightarrow> bool" where
  "is_comment s = (case s of [] \<Rightarrow> False | c # _ \<Rightarrow> c = CHR ''#'')"

definition parse_record :: "string \<Rightarrow> (string \<times> int) option" where
  "parse_record s =
     (case split_on TAB (strip s) of
        seqid # source # type # start # others \<Rightarrow> map_option (Pair seqid) (py_int start)
      | _ \<Rightarrow> None)"

definition recs :: "string list \<Rightarrow> (string \<times> int) list" where
  "recs ls = List.map_filter parse_record (filter (\<lambda>s. \<not> is_comment s) ls)"

fun contiguous :: "'a list \<Rightarrow> bool" where
  "contiguous [] = True"
| "contiguous [q] = True"
| "contiguous (q # q' # qs) = ((q' = q \<or> q \<notin> set (q' # qs)) \<and> contiguous (q' # qs))"

definition add_entry :: "sparse_index \<Rightarrow> string \<Rightarrow> int \<Rightarrow> nat \<Rightarrow> sparse_index" where
  "add_entry idx q v p =
     (case map_of idx q of
        None \<Rightarrow> idx @ [(q, \<lparr>c_start = [(0, v)], c_pos = [(0, p)]\<rparr>)]
      | Some c \<Rightarrow> container_update idx q
          (\<lambda>c. \<lparr>c_start = c_start c @ [(length (c_start c), v)],
                c_pos = c_pos c @ [(length (c_pos c), p)]\<rparr>))"


fun first_record :: "string \<Rightarrow> nat \<Rightarrow> string list \<Rightarrow> (nat \<times> int) option" where
  "first_record q off [] = None"
| "first_record q off (l # ls) =
     (case (if is_comment l then None else parse_record l) of
        Some (q', v) \<Rightarrow> if q' = q then Some (off, v) else first_record q (off + length l) ls
      | None \<Rightarrow> first_record q (off + length l) ls)"

definition cont_ok :: "string list \<Rightarrow> string \<Rightarrow> container \<Rightarrow> bool" where
  "cont_ok pre q c \<longleftrightarrow>
     c_start c \<noteq> [] \<and> length (c_pos c) = length (c_start c) \<and>
     map fst (c_start c) = [0..<length (c_start c)] \<and>
     map fst (c_pos c) = [0..<length (c_pos c)] \<and>
     sorted_wrt (<) (map snd (c_pos c)) \<and>
     (\<forall>i < length (c_start c). \<exists>k < length pre.
         snd (c_pos c ! i) = length (concat (take k pre)) \<and> \<not> is_comment (pre ! k) \<and>
         parse_record (pre ! k) = Some (q, snd (c_start c ! i))) \<and>
     first_record q 0 pre = Some (snd (hd (c_pos c)), snd (hd (c_start c)))"

definition gen_inv :: "(string \<times> int) list \<Rightarrow> string list \<Rightarrow> gen_state \<Rightarrow> bool" where
  "gen_inv th pre st \<longleftrightarrow>
     curr_pos st = length (concat pre) \<and>
     distinct (map fst (index st)) \<and>
     fst ` set (index st) = fst ` set (recs pre) \<and>
     (\<forall>q c. map_of (index st) q = Some c \<longrightarrow> cont_ok pre q c) \<and>
     (recs pre \<noteq> [] \<longrightarrow>
        (\<exists>c t. map_of (index st) (fst (last (recs pre))) = Some c \<and>
               curr_idx st = length (c_start c) \<and>
               prev_start st = Some (snd (last (c_start c))) \<and>
               curr_threshold st = Some t \<and>
               map_of th (fst (last (recs pre))) = Some t))"

definition starts_incr :: "sparse_index \<Rightarrow> bool" where
  "starts_incr idx \<longleftrightarrow> (\<forall>q c. map_of idx q = Some c \<longrightarrow> sorted_wrt (<) (map snd (c_start c)))"


text \<open>
  For the fetch: the session with its cursor moved, the offset at which line \<open>k\<close> of a
  file begins, the record a line decodes to, the lines that decode completely, the
  overlap test of the claim, and files sorted by ascending start within a seqid.
\<close>

definition place :: "session \<Rightarrow> nat \<Rightarrow> session" where
  "place s n = s\<lparr>s_handle := (s_handle s)\<lparr>cursor := n\<rparr>\<rparr>"






fun ascending :: "(string \<times> int) list \<Rightarrow> bool" where
  "ascending [] = True"
| "ascending [r] = True"
| "ascending (r # r' # rs) = ((fst r = fst r' \<longrightarrow> snd r \<le> snd r') \<and> ascending (r' # rs))"

fun block :: "string \<Rightarrow> (string \<times> int) list \<Rightarrow> bool" where
  "block q [] = True"
| "block q (r # rs) =
     (if fst r = q then (\<forall>r' \<in> set rs. fst r' = q \<longrightarrow> snd r \<le> snd r') \<and> block q rs
      else (\<forall>r' \<in> set rs. fst r' \<noteq> q))"

definition groups_ok :: "(string \<times> int) list \<Rightarrow> (string \<times> int list) list \<Rightarrow> bool" where
  "groups_ok seen d \<longleftrightarrow>
     (\<forall>g \<in> set d. sorted_wrt (<) (snd g) \<and> (\<forall>x \<in> set (snd g). (fst g, x) \<in> set seen))"

section \<open>Example files\<close>

text \<open>A nine-column record line and a version directive, for the concrete files below.\<close>

definition gff_line :: "string \<Rightarrow> string \<Rightarrow> string \<Rightarrow> string \<Rightarrow> string" where
  "gff_line seqid type start end =
     seqid @ [TAB] @ ''.'' @ [TAB] @ type @ [TAB] @ start @ [TAB] @ end @ [TAB] @ ''.'' @ [TAB]
       @ ''+'' @ [TAB] @ ''.'' @ [TAB] @ ''ID=x'' @ [NL]"

definition version_line :: "string \<Rightarrow> string" where
  "version_line v = ''##gff-version '' @ v @ [NL]"

definition plain_file :: "string \<Rightarrow> gff_path" where
  "plain_file text = \<lparr>raw = text, inflated = []\<rparr>"

text \<open>A gzip file: the magic bytes and a flag byte stand for the compressed stream.\<close>

definition gzip_file :: "string \<Rightarrow> gff_path" where
  "gzip_file text = \<lparr>raw = [CHR 0x1F, CHR 0x8B, CHR 0x08, CHR 0x00], inflated = text\<rparr>"

definition three_records :: string where
  "three_records =
     version_line ''3'' @ gff_line ''chr1'' ''gene'' ''100'' ''200''
       @ gff_line ''chr1'' ''exon'' ''300'' ''400'' @ gff_line ''chr1'' ''gene'' ''500'' ''600''"

definition chr1_only :: string where
  "chr1_only =
     version_line ''3'' @ gff_line ''chr1'' ''gene'' ''10'' ''15''
       @ gff_line ''chr1'' ''gene'' ''20'' ''25'' @ gff_line ''chr1'' ''gene'' ''30'' ''35''
       @ gff_line ''chr1'' ''gene'' ''1000'' ''1100''"


definition with_blank_line :: string where
  "with_blank_line =
     version_line ''3'' @ gff_line ''chr1'' ''gene'' ''100'' ''200'' @ [NL]
       @ gff_line ''chr1'' ''gene'' ''300'' ''400''"

definition three_records_session :: session where
  "three_records_session =
     \<lparr>s_handle = \<lparr>content = three_records, cursor = 109, binary = False\<rparr>,
      s_index = [(''chr1'', \<lparr>c_start = [(0, 100), (1, 300), (2, 500)],
                             c_pos = [(0, 16), (1, 47), (2, 78)]\<rparr>)]\<rparr>"




section \<open>Opening: version check and compression\<close>

text \<open>
  C9. A file whose directive is \<open>##gff-version 2\<close> is refused at open time, but not with
  the TypeError the docstring and the test announce: building the message raises
  NameError. A file without a directive gets the error of \<open>int\<close> or of the indexing.
\<close>

theorem version_2_raises_NameError:
  "GffFile_init (plain_file (version_line ''2'')) 3 = Inl NameError
   \<and> GffFile_init (plain_file (gff_line ''chr1'' ''gene'' ''100'' ''200'')) 3 = Inl ValueError
   \<and> GffFile_init (plain_file (''##gff-version'' @ [NL])) 3 = Inl IndexError"
  by code_simp

text \<open>
  C5. The gzip signature is detected and the version check passes, but opening the
  compressed file with the three records fails: the passes read \<open>bytes\<close> lines with
  \<open>gzipped = False\<close>, and \<open>line.startswith('#')\<close> is a TypeError. The same file
  uncompressed opens, and the fetch of 250..450 yields the one record 300..400.
\<close>

theorem gzip_open_raises_TypeError:
  "is_zipped (gzip_file three_records) = Inr True
   \<and> is_version_3 (gzip_file three_records) True = Inr True
   \<and> GffFile_init (gzip_file three_records) 3 = Inl TypeError
   \<and> (case GffFile_init (plain_file three_records) 3 of
        Inl e \<Rightarrow> None
      | Inr s \<Rightarrow> Some (map features (fst (fst (GffFile_fetch s ''chr1'' 250 450 None)))))
     = Some [[''chr1'', ''.'', ''exon'', ''300'', ''400'', ''.'', ''+'', ''.'']]"
  by code_simp

section \<open>Sequential reading\<close>


lemma parse_attrs_loop_error: "parse_attrs_loop xs d = Inl e \<Longrightarrow> e = ValueError"
proof (induction xs arbitrary: d)
  case Nil
  then show ?case by simp
next
  case (Cons a xs)
  then show ?case by (auto split: list.splits)
qed

lemma GffEntry_init_error: "GffEntry_init l = Inl e \<Longrightarrow> e = ValueError"
  by (auto simp: GffEntry_init_def parse_attrs_def Let_def split: sum.splits
           dest: parse_attrs_loop_error)

lemma next_error_kinds:
  "GffFile_next s = (Inl e, s') \<Longrightarrow> e = UnicodeDecodeError \<or> e = ValueError"
proof (induction s rule: GffFile_next.induct)
  case (1 s)
  obtain l h' where rl: "readline (s_handle s) = (l, h')" by (cases "readline (s_handle s)")
  from "1.prems" rl have ne: "py_text l \<noteq> []"
    by (auto simp: GffFile_next.simps [of s])
  show ?case
  proof (cases "case l of Str t \<Rightarrow> Inr l | Bytes b \<Rightarrow> decode_ascii l")
    case (Inl x)
    with "1.prems" rl ne have "e = x" by (simp add: GffFile_next.simps [of s])
    with Inl show ?thesis by (cases l) (auto split: if_splits)
  next
    case (Inr line)
    then have str: "\<exists>t. line = Str t" by (cases l) (auto split: if_splits)
    then obtain hash where hs: "startswith_hash line = Inr hash" by auto
    show ?thesis
    proof (cases hash)
      case True
      with "1.prems" rl ne Inr hs
      have "GffFile_next (s\<lparr>s_handle := h'\<rparr>) = (Inl e, s')"
        by (simp add: GffFile_next.simps [of s])
      with "1.IH" [OF rl [symmetric] ne Inr] hs True show ?thesis by simp
    next
      case False
      with "1.prems" rl ne Inr hs have "GffEntry_init (py_text line) = Inl e"
        by (auto simp: GffFile_next.simps [of s] split: sum.splits)
      from GffEntry_init_error [OF this] show ?thesis by simp
    qed
  qed
qed

lemma next_never_StopIteration: "fst (GffFile_next s) \<noteq> Inl StopIteration"
proof
  assume a: "fst (GffFile_next s) = Inl StopIteration"
  obtain s' where "GffFile_next s = (Inl StopIteration, s')"
    using a by (cases "GffFile_next s") auto
  from next_error_kinds [OF this] show False by simp
qed

text \<open>
  C8. \<open>__next__\<close> never raises StopIteration: on an exhausted stream it returns \<open>None\<close>
  and leaves the session as it is, so a \<open>for\<close> loop over the session receives \<open>None\<close>
  again and again. That is the state every session is in right after opening, since
  the index pass leaves the cursor at the end. A blank line is not skipped either: it
  is decoded as a record, which fails.
\<close>

theorem next_returns_None_at_end:
  "fst (GffFile_next s) \<noteq> Inl StopIteration
   \<and> (case GffFile_init (plain_file three_records) 3 of
      Inl e \<Rightarrow> False
    | Inr s \<Rightarrow> GffFile_next s = (Inr None, s))
   \<and> fst (GffFile_next \<lparr>s_handle = open_text (plain_file with_blank_line)\<lparr>cursor := 47\<rparr>,
                         s_index = []\<rparr>) = Inl ValueError"
proof -
  have "(case GffFile_init (plain_file three_records) 3 of
      Inl e \<Rightarrow> False
    | Inr s \<Rightarrow> GffFile_next s = (Inr None, s))
   \<and> fst (GffFile_next \<lparr>s_handle = open_text (plain_file with_blank_line)\<lparr>cursor := 47\<rparr>,
                         s_index = []\<rparr>) = Inl ValueError"
    by code_simp
  with next_never_StopIteration [of s] show ?thesis by simp
qed

text \<open>
  C10. A blank line (a lone line terminator) is not skipped by any pass: the threshold
  pass fails to unpack four columns, the index pass fails on the fourth column, and
  opening a file that contains one fails. Lines starting with \<open>#\<close> are skipped.
\<close>

theorem blank_line_not_skipped:
  "thresholds_step False [] (Str [NL]) = Inl ValueError
   \<and> gen_index_step [] False gen_init (Str [NL]) = Inl IndexError
   \<and> GffFile_init (plain_file with_blank_line) 3 = Inl ValueError
   \<and> thresholds_step False [] (Str (version_line ''3'')) = Inr []
   \<and> gen_index_step [] False gen_init (Str (version_line ''3'')) = Inr (gen_init\<lparr>curr_pos := 16\<rparr>)"
  by code_simp

section \<open>The period argument\<close>

lemma GffFile_init_ignores_period: "GffFile_init filename period = GffFile_init filename period'"
  by (simp add: GffFile_init_def)

text \<open>
  C4. Opened with \<open>period = 3\<close>, the file with the starts 10, 20, 30, 1000 is indexed
  with threshold 0 (every record gets an entry), not with the threshold 990 that the
  differences three apart give and with which only the first record is indexed.
\<close>

theorem period_not_used:
  "map_option fst (case get_thresholds (open_text (plain_file chr1_only)) 3 False of
                     Inl e \<Rightarrow> None | Inr r \<Rightarrow> Some r) = Some [(''chr1'', 990)]
   \<and> map_option fst (case gen_index (open_text (plain_file chr1_only)) 3 False of
                       Inl e \<Rightarrow> None | Inr r \<Rightarrow> Some r)
       = Some [(''chr1'', \<lparr>c_start = [(0, 10)], c_pos = [(0, 16)]\<rparr>)]
   \<and> (case GffFile_init (plain_file chr1_only) 3 of Inl e \<Rightarrow> None | Inr s \<Rightarrow> Some (s_index s))
       = Some [(''chr1'', \<lparr>c_start = [(0, 10), (1, 20), (2, 30), (3, 1000)],
                            c_pos = [(0, 16), (1, 45), (2, 74), (3, 103)]\<rparr>)]"
  by code_simp

section \<open>Failures of a fetch\<close>

lemma bisect_right_loop_all_greater:
  "hi \<le> length a \<Longrightarrow> (\<forall>i < hi. x < a ! i) \<Longrightarrow> bisect_right_loop a x lo hi = lo"
proof (induction a x lo hi rule: bisect_right_loop.induct)
  case (1 a x lo hi)
  show ?case
  proof (cases "lo < hi")
    case True
    then have mid: "(lo + hi) div 2 < hi" by simp
    with "1.prems" have "x < a ! ((lo + hi) div 2)" by simp
    moreover have "bisect_right_loop a x lo ((lo + hi) div 2) = lo"
      using "1.IH"(1) [OF True refl] "1.prems" mid \<open>x < a ! ((lo + hi) div 2)\<close> by simp
    ultimately show ?thesis
      using True by (simp add: bisect_right_loop.simps [of a x lo hi])
  next
    case False
    then show ?thesis by (simp add: bisect_right_loop.simps [of a x lo hi])
  qed
qed

lemma find_le_below_all:
  assumes "\<forall>v \<in> set (map snd (c_start cont)). start < v"
  shows "find_le cont start = Inl ValueError"
proof -
  have "\<forall>i < length (map snd (c_start cont)). start < map snd (c_start cont) ! i"
    using assms nth_mem by blast
  then have "bisect_right (map snd (c_start cont)) start = 0"
    unfolding bisect_right_def by (intro bisect_right_loop_all_greater) simp_all
  then show ?thesis by (simp add: find_le_def)
qed

text \<open>
  C7. A fetch for a seqid that the index does not have raises KeyError before
  anything is yielded; a fetch whose start lies below every indexed start of the
  seqid raises ValueError, also before anything is yielded. Neither moves the cursor.
\<close>

theorem fetch_unknown_or_out_of_range:
  "(map_of (s_index s) seqid = None \<longrightarrow>
      GffFile_fetch s seqid start end type = (([], Some KeyError), s))
   \<and> (\<forall>cont. map_of (s_index s) seqid = Some cont
          \<and> (\<forall>v \<in> set (map snd (c_start cont)). start < v) \<longrightarrow>
      GffFile_fetch s seqid start end type = (([], Some ValueError), s))"
  by (auto simp: GffFile_fetch_def find_le_below_all simp del: set_map)

theorem fetch_unknown_or_out_of_range_witness:
  "map_of (s_index three_records_session) ''chrX'' = None
   \<and> GffFile_fetch three_records_session ''chrX'' 1 100 None
       = (([], Some KeyError), three_records_session)
   \<and> map_of (s_index three_records_session) ''chr1''
       = Some \<lparr>c_start = [(0, 100), (1, 300), (2, 500)], c_pos = [(0, 16), (1, 47), (2, 78)]\<rparr>
   \<and> (50::int) < 100 \<and> (50::int) < 300 \<and> (50::int) < 500
   \<and> GffFile_fetch three_records_session ''chr1'' 50 700 None
       = (([], Some ValueError), three_records_session)"
proof -
  have a: "map_of (s_index three_records_session) ''chrX'' = None"
    by (simp add: three_records_session_def)
  have b: "map_of (s_index three_records_session) ''chr1''
       = Some \<lparr>c_start = [(0, 100), (1, 300), (2, 500)], c_pos = [(0, 16), (1, 47), (2, 78)]\<rparr>"
    by (simp add: three_records_session_def)
  have c: "\<forall>v \<in> set (map snd [(0::nat, 100::int), (1, 300), (2, 500)]). 50 < v"
    by simp
  from a b c
    fetch_unknown_or_out_of_range [of three_records_session "''chrX''" 1 100 None]
    fetch_unknown_or_out_of_range [of three_records_session "''chr1''" 50 700 None]
  show ?thesis by simp
qed

section \<open>The index-building pass\<close>

lemma parse_record_nonempty: "parse_record s = Some r \<Longrightarrow> s \<noteq> []"
  by (auto simp: parse_record_def strip_def split_on_def)

lemma thresholds_step_text:
  "thresholds_step False d (Str s) =
     (if s = [] \<or> is_comment s then Inr d
      else case parse_record s of None \<Rightarrow> Inl ValueError | Some (q, v) \<Rightarrow> Inr (diffs_add d q v))"
  by (auto simp: thresholds_step_def is_comment_def parse_record_def split: list.splits option.splits)

lemma gen_index_step_skip:
  "is_comment s \<or> s = [] \<Longrightarrow>
   gen_index_step th False st (Str s) = Inr (st\<lparr>curr_pos := curr_pos st + length s\<rparr>)"
  by (auto simp: gen_index_step_def is_comment_def py_len_def split: list.splits)

lemma parse_record_fields:
  assumes "parse_record s = Some (q, v)"
  shows "py_nth (split_on TAB (strip s)) 0 = Inr q" and "int_field (split_on TAB (strip s)) 3 = Inr v"
  using assms
  by (auto simp: parse_record_def py_nth_def int_field_def split: list.splits option.splits)

lemma parse_record_None_fields:
  assumes "parse_record s = None"
  shows "isl (py_nth (split_on TAB (strip s)) 0) \<or> isl (int_field (split_on TAB (strip s)) 3)"
  using assms
  by (auto simp: parse_record_def py_nth_def int_field_def split: list.splits option.splits)

lemma gen_index_step_new:
  assumes "\<not> is_comment s" "parse_record s = Some (q, v)" "q \<notin> fst ` set (index st)"
     "map_of th q = Some t"
  shows "gen_index_step th False st (Str s) =
     Inr ((emit (st\<lparr>prev_start := None, curr_idx := 0, curr_threshold := Some t\<rparr>) q v)
            \<lparr>curr_pos := curr_pos st + length s\<rparr>)"
  using assms parse_record_nonempty [OF assms(2)] parse_record_fields [OF assms(2)]
  by (simp add: gen_index_step_def is_comment_def py_len_def emit_def split: list.splits)

lemma gen_index_step_old:
  assumes "\<not> is_comment s" "parse_record s = Some (q, v)" "q \<in> fst ` set (index st)"
     "prev_start st = Some p" "curr_threshold st = Some t"
  shows "gen_index_step th False st (Str s) =
     Inr ((if v - p > t then emit st q v else st)\<lparr>curr_pos := curr_pos st + length s\<rparr>)"
  using assms parse_record_nonempty [OF assms(2)] parse_record_fields [OF assms(2)]
  by (simp add: gen_index_step_def is_comment_def py_len_def emit_def split: list.splits)





lemma gen_index_step_bad:
  assumes "\<not> is_comment s" "s \<noteq> []" "parse_record s = None"
  shows "isl (gen_index_step th False st (Str s))"
proof -
  let ?f = "split_on TAB (strip s)"
  from assms(1,2) have h: "startswith_hash (Str s) = Inr False"
    by (cases s) (auto simp: is_comment_def)
  have step: "gen_index_step th False st (Str s) =
      (case py_nth ?f 0 of Inl e \<Rightarrow> Inl e
       | Inr seqid \<Rightarrow> (case int_field ?f 3 of Inl e \<Rightarrow> Inl e
           | Inr start \<Rightarrow> gen_index_step th False st (Str s)))"
    using h assms(2) by (simp add: gen_index_step_def Let_def split: sum.splits)
  from parse_record_None_fields [OF assms(3)]
  show ?thesis
  proof
    assume "isl (py_nth ?f 0)"
    then obtain e where "py_nth ?f 0 = Inl e" by (cases "py_nth ?f 0") auto
    then show ?thesis by (subst step) simp
  next
    assume "isl (int_field ?f 3)"
    then obtain e where e: "int_field ?f 3 = Inl e" by (cases "int_field ?f 3") auto
    show ?thesis
    proof (cases "py_nth ?f 0")
      case (Inl a)
      then show ?thesis by (subst step) simp
    next
      case (Inr b)
      with e show ?thesis by (subst step) simp
    qed
  qed
qed

lemma recs_append: "recs (a @ b) = recs a @ recs b"
  by (simp add: recs_def map_filter_def)

lemma recs_comment: "is_comment s \<or> s = [] \<Longrightarrow> recs [s] = []"
  by (auto simp: recs_def map_filter_def parse_record_def strip_def split_on_def)

lemma recs_record: "\<not> is_comment s \<Longrightarrow> parse_record s = Some r \<Longrightarrow> recs [s] = [r]"
  by (simp add: recs_def map_filter_def)

lemma recs_bad: "parse_record s = None \<Longrightarrow> recs [s] = []"
  by (simp add: recs_def map_filter_def)

lemma contiguous_append: "contiguous (xs @ ys) \<Longrightarrow> contiguous xs \<and> contiguous ys"
proof (induction xs rule: contiguous.induct)
  case 1
  then show ?case by simp
next
  case (2 q)
  then show ?case by (cases ys) simp_all
next
  case (3 q q' qs)
  from "3.prems" have "contiguous ((q' # qs) @ ys)" by simp
  with "3.IH" have "contiguous (q' # qs)" "contiguous ys" by simp_all
  moreover from "3.prems" have "q' = q \<or> q \<notin> set (q' # qs)" by auto
  ultimately show ?case by simp
qed

lemma contiguous_snoc_last: "contiguous (xs @ [q]) \<Longrightarrow> q \<in> set xs \<Longrightarrow> last xs = q"
proof (induction xs rule: contiguous.induct)
  case 1
  then show ?case by simp
next
  case (2 x)
  then show ?case by simp
next
  case (3 x y ys)
  from "3.prems"(1) have c: "contiguous ((y # ys) @ [q])" and d: "y = x \<or> x \<notin> set (y # ys @ [q])"
    by simp_all
  have "q \<in> set (y # ys)"
  proof (rule ccontr)
    assume n: "q \<notin> set (y # ys)"
    with "3.prems"(2) have "q = x" by simp
    with d n show False by auto
  qed
  with "3.IH" [OF c] show ?case by simp
qed

lemma container_update_keys [simp]: "map fst (container_update idx q f) = map fst idx"
  by (induction idx) auto

lemma map_of_container_update:
  "map_of (container_update idx q f) q' = (if q' = q then map_option f (map_of idx q) else map_of idx q')"
  by (induction idx) auto

lemma setdefault_present: "k \<in> fst ` set d \<Longrightarrow> setdefault d k v = d"
  by (simp add: setdefault_def)

lemma setdefault_absent: "k \<notin> fst ` set d \<Longrightarrow> setdefault d k v = d @ [(k, v)]"
  by (simp add: setdefault_def)

lemma container_update_append_new:
  "q \<notin> fst ` set idx \<Longrightarrow> container_update (idx @ [(q, c)]) q f = idx @ [(q, f c)]"
  by (induction idx) auto

lemma container_update_cong:
  "map_of idx q = Some c \<Longrightarrow> f c = g c \<Longrightarrow> container_update idx q f = container_update idx q g"
  by (induction idx) (auto split: if_splits)

lemma emit_new:
  assumes "q \<notin> fst ` set (index st)" "curr_idx st = 0"
  shows "index (emit st q v) = add_entry (index st) q v (curr_pos st)"
proof -
  from assms(1) have "map_of (index st) q = None" by (simp add: map_of_eq_None_iff)
  with assms show ?thesis
    by (simp add: emit_def add_entry_def setdefault_absent container_update_append_new setdefault_def)
qed

lemma upto_keys_fresh: "map fst d = [0..<length d] \<Longrightarrow> length d \<notin> fst ` set d"
proof
  assume a: "map fst d = [0..<length d]" and b: "length d \<in> fst ` set d"
  from b have "length d \<in> set (map fst d)" by simp
  with a show False by simp
qed

lemma emit_old:
  assumes "map_of (index st) q = Some c" "map fst (c_start c) = [0..<length (c_start c)]"
    "map fst (c_pos c) = [0..<length (c_pos c)]" "length (c_pos c) = length (c_start c)"
    "curr_idx st = length (c_start c)"
  shows "index (emit st q v) = add_entry (index st) q v (curr_pos st)"
proof -
  from assms(1) have "q \<in> fst ` set (index st)"
    by (metis map_of_eq_None_iff option.distinct(1))
  then have sd: "setdefault (index st) q \<lparr>c_start = [], c_pos = []\<rparr> = index st"
    by (rule setdefault_present)
  have f1: "setdefault (c_start c) (length (c_start c)) v = c_start c @ [(length (c_start c), v)]"
    using upto_keys_fresh [OF assms(2)] by (rule setdefault_absent)
  have f2: "setdefault (c_pos c) (length (c_start c)) (curr_pos st) = c_pos c @ [(length (c_pos c), curr_pos st)]"
    using upto_keys_fresh [OF assms(3)] assms(4) by (simp add: setdefault_absent)
  have "container_update (index st) q
          (\<lambda>c. \<lparr>c_start = setdefault (c_start c) (curr_idx st) v,
                c_pos = setdefault (c_pos c) (curr_idx st) (curr_pos st)\<rparr>)
        = container_update (index st) q
          (\<lambda>c. \<lparr>c_start = c_start c @ [(length (c_start c), v)],
                c_pos = c_pos c @ [(length (c_pos c), curr_pos st)]\<rparr>)"
    by (rule container_update_cong [OF assms(1)]) (simp add: assms(5) f1 f2)
  then show ?thesis
    by (simp add: emit_def add_entry_def assms(1) sd)
qed

lemma add_entry_keys: "fst ` set (add_entry idx q v p) = insert q (fst ` set idx)"
proof (cases "map_of idx q")
  case None
  then show ?thesis by (auto simp: add_entry_def)
next
  case (Some c)
  then have "q \<in> fst ` set idx" by (metis map_of_eq_None_iff option.distinct(1))
  moreover have "fst ` set (container_update idx q f) = fst ` set idx" for f
    using container_update_keys [of idx q f] by (metis list.set_map)
  ultimately show ?thesis using Some by (auto simp: add_entry_def)
qed

lemma add_entry_distinct: "distinct (map fst idx) \<Longrightarrow> distinct (map fst (add_entry idx q v p))"
proof (cases "map_of idx q")
  case None
  moreover from None have "q \<notin> fst ` set idx" by (simp add: map_of_eq_None_iff)
  moreover assume "distinct (map fst idx)"
  ultimately show ?thesis by (simp add: add_entry_def)
next
  case (Some c)
  moreover assume "distinct (map fst idx)"
  ultimately show ?thesis by (simp add: add_entry_def)
qed

lemma map_of_add_entry:
  "map_of (add_entry idx q v p) q' =
     (if q' = q then
        Some (case map_of idx q of
                None \<Rightarrow> \<lparr>c_start = [(0, v)], c_pos = [(0, p)]\<rparr>
              | Some c \<Rightarrow> \<lparr>c_start = c_start c @ [(length (c_start c), v)],
                            c_pos = c_pos c @ [(length (c_pos c), p)]\<rparr>)
      else map_of idx q')"
  by (cases "map_of idx q") (auto simp: add_entry_def map_of_container_update map_add_def split: option.splits)

lemma gen_inv_init: "gen_inv th [] gen_init"
  by (simp add: gen_inv_def gen_init_def recs_def map_filter_def)

lemma first_record_append:
  "first_record q off (a @ b) =
     (case first_record q off a of
        Some r \<Rightarrow> Some r
      | None \<Rightarrow> first_record q (off + length (concat a)) b)"
  by (induction a arbitrary: off) (auto split: option.splits simp: add.assoc)

lemma recs_Cons: "recs (l # ls) = recs [l] @ recs ls"
  using recs_append [of "[l]" ls] by simp

lemma first_record_None: "q \<notin> fst ` set (recs pre) \<Longrightarrow> first_record q off pre = None"
proof (induction pre arbitrary: off)
  case Nil
  then show ?case by simp
next
  case (Cons l ls)
  from Cons.prems have a: "q \<notin> fst ` set (recs [l])" and b: "q \<notin> fst ` set (recs ls)"
    by (auto simp: recs_Cons [of l ls])
  show ?case
  proof (cases "is_comment l")
    case True
    with Cons.IH [OF b] show ?thesis by simp
  next
    case False
    show ?thesis
    proof (cases "parse_record l")
      case None
      with False Cons.IH [OF b] show ?thesis by simp
    next
      case (Some r)
      with False a have "fst r \<noteq> q" by (auto simp: recs_record)
      with False Some Cons.IH [OF b] show ?thesis by (cases r) simp
    qed
  qed
qed

lemma offset_lt:
  assumes "k < length pre" "pre ! k \<noteq> []"
  shows "length (concat (take k pre)) < length (concat pre)"
proof -
  have "pre = take k pre @ pre ! k # drop (Suc k) pre"
    using assms(1) by (simp add: id_take_nth_drop)
  then have "concat pre = concat (take k pre) @ pre ! k @ concat (drop (Suc k) pre)"
    by (metis concat.simps(2) concat_append)
  then have "length (concat pre) = length (concat (take k pre)) + length (pre ! k)
               + length (concat (drop (Suc k) pre))"
    by (metis add.assoc length_append)
  with assms(2) show ?thesis by (cases "pre ! k") simp_all
qed

lemma cont_ok_pos_lt:
  assumes "cont_ok pre q c" "p \<in> set (map snd (c_pos c))"
  shows "p < length (concat pre)"
proof -
  from assms(2) obtain i where i: "i < length (c_pos c)" and p: "p = snd (c_pos c ! i)"
    by (auto simp: in_set_conv_nth)
  from assms(1) i have "i < length (c_start c)" by (simp add: cont_ok_def)
  with assms(1) obtain k where k: "k < length pre" "snd (c_pos c ! i) = length (concat (take k pre))"
      "parse_record (pre ! k) = Some (q, snd (c_start c ! i))"
    unfolding cont_ok_def by blast
  from k(3) have "pre ! k \<noteq> []" by (rule parse_record_nonempty)
  from offset_lt [OF k(1) this] k(2) p show ?thesis by simp
qed

lemma cont_ok_mono:
  assumes "cont_ok pre q c"
  shows "cont_ok (pre @ [s]) q c"
proof -
  have ent: "\<exists>k < length (pre @ [s]).
         snd (c_pos c ! i) = length (concat (take k (pre @ [s]))) \<and> \<not> is_comment ((pre @ [s]) ! k) \<and>
         parse_record ((pre @ [s]) ! k) = Some (q, snd (c_start c ! i))"
    if "i < length (c_start c)" for i
  proof -
    from assms that obtain k where k: "k < length pre"
       "snd (c_pos c ! i) = length (concat (take k pre))" "\<not> is_comment (pre ! k)"
       "parse_record (pre ! k) = Some (q, snd (c_start c ! i))"
      unfolding cont_ok_def by blast
    then have "k < length (pre @ [s])" "take k (pre @ [s]) = take k pre" "(pre @ [s]) ! k = pre ! k"
      by (simp_all add: nth_append)
    with k show ?thesis by metis
  qed
  from assms have "first_record q 0 (pre @ [s]) = Some (snd (hd (c_pos c)), snd (hd (c_start c)))"
    by (simp add: cont_ok_def first_record_append)
  with assms ent show ?thesis unfolding cont_ok_def by blast
qed

lemma cont_ok_new:
  assumes "q \<notin> fst ` set (recs pre)" "\<not> is_comment s" "parse_record s = Some (q, v)"
  shows "cont_ok (pre @ [s]) q \<lparr>c_start = [(0, v)], c_pos = [(0, length (concat pre))]\<rparr>"
proof -
  have "first_record q 0 (pre @ [s]) = Some (length (concat pre), v)"
    using assms by (simp add: first_record_append first_record_None)
  moreover have "\<exists>k < length (pre @ [s]). length (concat pre) = length (concat (take k (pre @ [s])))
       \<and> \<not> is_comment ((pre @ [s]) ! k) \<and> parse_record ((pre @ [s]) ! k) = Some (q, v)"
    using assms by (intro exI [of _ "length pre"]) simp
  ultimately show ?thesis by (simp add: cont_ok_def)
qed

lemma cont_okD:
  assumes "cont_ok pre q c"
  shows "c_start c \<noteq> []" "length (c_pos c) = length (c_start c)"
    "map fst (c_start c) = [0..<length (c_start c)]"
    "map fst (c_pos c) = [0..<length (c_pos c)]"
    "sorted_wrt (<) (map snd (c_pos c))"
    "first_record q 0 pre = Some (snd (hd (c_pos c)), snd (hd (c_start c)))"
  using assms unfolding cont_ok_def by blast+

lemma cont_ok_entry:
  assumes "cont_ok pre q c" "i < length (c_start c)"
  shows "\<exists>k < length pre.
         snd (c_pos c ! i) = length (concat (take k pre)) \<and> \<not> is_comment (pre ! k) \<and>
         parse_record (pre ! k) = Some (q, snd (c_start c ! i))"
  using assms unfolding cont_ok_def by blast

lemma cont_ok_ext:
  assumes ok: "cont_ok pre q c" and nc: "\<not> is_comment s" and pr: "parse_record s = Some (q, v)"
  shows "cont_ok (pre @ [s]) q \<lparr>c_start = c_start c @ [(length (c_start c), v)],
                                 c_pos = c_pos c @ [(length (c_pos c), length (concat pre))]\<rparr>"
    (is "cont_ok _ _ ?c'")
proof -
  from cont_ok_mono [OF ok] have m: "cont_ok (pre @ [s]) q c" .
  note d = cont_okD [OF ok]
  from d(1,2) have ne2: "c_pos c \<noteq> []" by auto
  have "\<forall>p \<in> set (map snd (c_pos c)). p < length (concat pre)"
    using cont_ok_pos_lt [OF ok] by blast
  with d(5) have sorted: "sorted_wrt (<) (map snd (c_pos ?c'))"
    by (simp add: sorted_wrt_append)
  have ent: "\<exists>k < length (pre @ [s]).
         snd (c_pos ?c' ! i) = length (concat (take k (pre @ [s]))) \<and> \<not> is_comment ((pre @ [s]) ! k) \<and>
         parse_record ((pre @ [s]) ! k) = Some (q, snd (c_start ?c' ! i))"
    if "i < length (c_start ?c')" for i
  proof (cases "i < length (c_start c)")
    case True
    from cont_ok_entry [OF m True] obtain k where k: "k < length (pre @ [s])"
       "snd (c_pos c ! i) = length (concat (take k (pre @ [s])))" "\<not> is_comment ((pre @ [s]) ! k)"
       "parse_record ((pre @ [s]) ! k) = Some (q, snd (c_start c ! i))"
      by blast
    from True d(2) have "c_pos ?c' ! i = c_pos c ! i" "c_start ?c' ! i = c_start c ! i"
      by (simp_all add: nth_append)
    with k show ?thesis by metis
  next
    case False
    with that have i: "i = length (c_start c)" by simp
    with d(2) have "c_pos ?c' ! i = (length (c_pos c), length (concat pre))"
        "c_start ?c' ! i = (length (c_start c), v)"
      by (simp_all add: nth_append)
    moreover have "length pre < length (pre @ [s])" "take (length pre) (pre @ [s]) = pre"
        "(pre @ [s]) ! length pre = s"
      by simp_all
    ultimately show ?thesis using nc pr by (intro exI [of _ "length pre"]) simp
  qed
  have keys: "map fst (c_start ?c') = [0..<length (c_start ?c')]"
      "map fst (c_pos ?c') = [0..<length (c_pos ?c')]"
    using d(3,4) by simp_all
  have fr: "first_record q 0 (pre @ [s]) = Some (snd (hd (c_pos ?c')), snd (hd (c_start ?c')))"
    using cont_okD(6) [OF m] d(1) ne2 by simp
  have "c_start ?c' \<noteq> []" "length (c_pos ?c') = length (c_start ?c')"
    using d(2) by simp_all
  with sorted ent keys fr show ?thesis unfolding cont_ok_def by blast
qed


lemma gen_invD:
  assumes "gen_inv th pre st"
  shows "curr_pos st = length (concat pre)" "distinct (map fst (index st))"
    "fst ` set (index st) = fst ` set (recs pre)"
  using assms unfolding gen_inv_def by blast+

lemma gen_inv_cont: "gen_inv th pre st \<Longrightarrow> map_of (index st) q = Some c \<Longrightarrow> cont_ok pre q c"
  unfolding gen_inv_def by blast

lemma gen_inv_last:
  assumes "gen_inv th pre st" "recs pre \<noteq> []"
  shows "\<exists>c t. map_of (index st) (fst (last (recs pre))) = Some c \<and>
               curr_idx st = length (c_start c) \<and>
               prev_start st = Some (snd (last (c_start c))) \<and>
               curr_threshold st = Some t \<and>
               map_of th (fst (last (recs pre))) = Some t"
  using assms unfolding gen_inv_def by blast

lemma gen_invI:
  assumes "curr_pos st = length (concat pre)" "distinct (map fst (index st))"
    "fst ` set (index st) = fst ` set (recs pre)"
    "\<And>q c. map_of (index st) q = Some c \<Longrightarrow> cont_ok pre q c"
    "recs pre \<noteq> [] \<Longrightarrow> \<exists>c t. map_of (index st) (fst (last (recs pre))) = Some c \<and>
               curr_idx st = length (c_start c) \<and>
               prev_start st = Some (snd (last (c_start c))) \<and>
               curr_threshold st = Some t \<and>
               map_of th (fst (last (recs pre))) = Some t"
  shows "gen_inv th pre st"
  using assms unfolding gen_inv_def by blast

lemma step_first:
  assumes inv: "gen_inv th pre st" and nc: "\<not> is_comment s" and pr: "parse_record s = Some (q, v)"
    and new: "q \<notin> fst ` set (recs pre)" and th: "map_of th q = Some t"
  shows "gen_index_step th False st (Str s) =
           Inr \<lparr>index = add_entry (index st) q v (curr_pos st),
                curr_pos = curr_pos st + length s, curr_idx = 1,
                curr_threshold = Some t, prev_start = Some v\<rparr>"
proof -
  from gen_invD(3) [OF inv] new have nk: "q \<notin> fst ` set (index st)" by simp
  let ?st1 = "st\<lparr>prev_start := None, curr_idx := 0, curr_threshold := Some t\<rparr>"
  have "index (emit ?st1 q v) = add_entry (index ?st1) q v (curr_pos ?st1)"
    by (rule emit_new) (use nk in simp_all)
  then have "emit ?st1 q v = \<lparr>index = add_entry (index st) q v (curr_pos st),
                curr_pos = curr_pos st, curr_idx = 1,
                curr_threshold = Some t, prev_start = Some v\<rparr>"
    by (simp add: emit_def)
  with gen_index_step_new [OF nc pr nk th] show ?thesis by simp
qed

lemma step_first_missing:
  assumes inv: "gen_inv th pre st" and nc: "\<not> is_comment s" and pr: "parse_record s = Some (q, v)"
    and new: "q \<notin> fst ` set (recs pre)" and th: "map_of th q = None"
  shows "gen_index_step th False st (Str s) = Inl KeyError"
proof -
  from gen_invD(3) [OF inv] new have nk: "q \<notin> fst ` set (index st)" by simp
  with nc th parse_record_nonempty [OF pr] parse_record_fields [OF pr] show ?thesis
    by (simp add: gen_index_step_def is_comment_def split: list.splits)
qed

lemma step_again:
  assumes inv: "gen_inv th pre st" and nc: "\<not> is_comment s" and pr: "parse_record s = Some (q, v)"
    and old: "q \<in> fst ` set (recs pre)" and cont: "contiguous (map fst (recs pre) @ [q])"
  shows "\<exists>c t. map_of (index st) q = Some c \<and> map_of th q = Some t \<and>
           curr_threshold st = Some t \<and> curr_idx st = length (c_start c) \<and>
           prev_start st = Some (snd (last (c_start c))) \<and> fst (last (recs pre)) = q \<and>
           gen_index_step th False st (Str s) =
             Inr (if v - snd (last (c_start c)) > t
                  then \<lparr>index = add_entry (index st) q v (curr_pos st),
                        curr_pos = curr_pos st + length s, curr_idx = curr_idx st + 1,
                        curr_threshold = Some t, prev_start = Some v\<rparr>
                  else st\<lparr>curr_pos := curr_pos st + length s\<rparr>)"
proof -
  from old have ne: "recs pre \<noteq> []" by auto
  from old have "q \<in> set (map fst (recs pre))" by simp
  from contiguous_snoc_last [OF cont this] ne have lastq: "fst (last (recs pre)) = q"
    by (simp add: last_map)
  from gen_inv_last [OF inv ne] lastq obtain c t where c: "map_of (index st) q = Some c"
      and ci: "curr_idx st = length (c_start c)"
      and ps: "prev_start st = Some (snd (last (c_start c)))"
      and ct: "curr_threshold st = Some t" and tq: "map_of th q = Some t"
    by auto
  note d = cont_okD [OF gen_inv_cont [OF inv c]]
  from gen_invD(3) [OF inv] old have k: "q \<in> fst ` set (index st)" by simp
  have e: "index (emit st q v) = add_entry (index st) q v (curr_pos st)"
    by (rule emit_old [OF c d(3) d(4) d(2) ci])
  then have "emit st q v = \<lparr>index = add_entry (index st) q v (curr_pos st),
                curr_pos = curr_pos st, curr_idx = curr_idx st + 1,
                curr_threshold = Some t, prev_start = Some v\<rparr>"
    using ct by (simp add: emit_def)
  with gen_index_step_old [OF nc pr k ps ct, of th] c tq ct ci ps lastq show ?thesis by auto
qed

lemma gen_inv_skip:
  assumes inv: "gen_inv th pre st" and sk: "recs [s] = []"
  shows "gen_inv th (pre @ [s]) (st\<lparr>curr_pos := curr_pos st + length s\<rparr>)"
proof (rule gen_invI)
  from sk have r: "recs (pre @ [s]) = recs pre" by (simp add: recs_append)
  show "curr_pos (st\<lparr>curr_pos := curr_pos st + length s\<rparr>) = length (concat (pre @ [s]))"
    using gen_invD(1) [OF inv] by simp
  show "distinct (map fst (index (st\<lparr>curr_pos := curr_pos st + length s\<rparr>)))"
    using gen_invD(2) [OF inv] by simp
  show "fst ` set (index (st\<lparr>curr_pos := curr_pos st + length s\<rparr>)) = fst ` set (recs (pre @ [s]))"
    using gen_invD(3) [OF inv] r by simp
  show "cont_ok (pre @ [s]) q c"
    if "map_of (index (st\<lparr>curr_pos := curr_pos st + length s\<rparr>)) q = Some c" for q c
    using that gen_inv_cont [OF inv] cont_ok_mono by simp
  show "\<exists>c t. map_of (index (st\<lparr>curr_pos := curr_pos st + length s\<rparr>)) (fst (last (recs (pre @ [s])))) = Some c \<and>
               curr_idx (st\<lparr>curr_pos := curr_pos st + length s\<rparr>) = length (c_start c) \<and>
               prev_start (st\<lparr>curr_pos := curr_pos st + length s\<rparr>) = Some (snd (last (c_start c))) \<and>
               curr_threshold (st\<lparr>curr_pos := curr_pos st + length s\<rparr>) = Some t \<and>
               map_of th (fst (last (recs (pre @ [s])))) = Some t"
    if "recs (pre @ [s]) \<noteq> []"
    using that r gen_inv_last [OF inv] by simp
qed

lemma gen_inv_emit:
  assumes inv: "gen_inv th pre st" and nc: "\<not> is_comment s" and pr: "parse_record s = Some (q, v)"
    and th: "map_of th q = Some t"
    and n: "n = (case map_of (index st) q of None \<Rightarrow> 1 | Some c \<Rightarrow> length (c_start c) + 1)"
  shows "gen_inv th (pre @ [s]) \<lparr>index = add_entry (index st) q v (curr_pos st),
                curr_pos = curr_pos st + length s, curr_idx = n,
                curr_threshold = Some t, prev_start = Some v\<rparr>" (is "gen_inv _ _ ?st'")
proof (rule gen_invI)
  have r: "recs (pre @ [s]) = recs pre @ [(q, v)]"
    using nc pr by (simp add: recs_append recs_record)
  note cp = gen_invD(1) [OF inv]
  let ?new = "case map_of (index st) q of
                None \<Rightarrow> \<lparr>c_start = [(0, v)], c_pos = [(0, curr_pos st)]\<rparr>
              | Some c \<Rightarrow> \<lparr>c_start = c_start c @ [(length (c_start c), v)],
                            c_pos = c_pos c @ [(length (c_pos c), curr_pos st)]\<rparr>"
  have newok: "cont_ok (pre @ [s]) q ?new"
  proof (cases "map_of (index st) q")
    case None
    then have "q \<notin> fst ` set (recs pre)"
      using gen_invD(3) [OF inv] by (simp add: map_of_eq_None_iff)
    from cont_ok_new [OF this nc pr] None cp show ?thesis by simp
  next
    case (Some c)
    from cont_ok_ext [OF gen_inv_cont [OF inv Some] nc pr] Some cp show ?thesis by simp
  qed
  show "curr_pos ?st' = length (concat (pre @ [s]))" using cp by simp
  show "distinct (map fst (index ?st'))"
    using add_entry_distinct [OF gen_invD(2) [OF inv]] by simp
  show "fst ` set (index ?st') = fst ` set (recs (pre @ [s]))"
    using gen_invD(3) [OF inv] r by (simp add: add_entry_keys)
  show "cont_ok (pre @ [s]) q' c'" if "map_of (index ?st') q' = Some c'" for q' c'
  proof (cases "q' = q")
    case True
    with that have "c' = ?new" by (simp add: map_of_add_entry)
    with newok True show ?thesis by simp
  next
    case False
    with that have "map_of (index st) q' = Some c'" by (simp add: map_of_add_entry)
    from cont_ok_mono [OF gen_inv_cont [OF inv this]] show ?thesis .
  qed
  show "\<exists>c t. map_of (index ?st') (fst (last (recs (pre @ [s])))) = Some c \<and>
               curr_idx ?st' = length (c_start c) \<and>
               prev_start ?st' = Some (snd (last (c_start c))) \<and>
               curr_threshold ?st' = Some t \<and>
               map_of th (fst (last (recs (pre @ [s])))) = Some t"
  proof (intro exI conjI)
    show "map_of (index ?st') (fst (last (recs (pre @ [s])))) = Some ?new"
      using r by (simp add: map_of_add_entry)
    show "curr_idx ?st' = length (c_start ?new)" using n by (simp split: option.splits)
    show "prev_start ?st' = Some (snd (last (c_start ?new)))" by (simp split: option.splits)
    show "curr_threshold ?st' = Some t" by simp
    show "map_of th (fst (last (recs (pre @ [s])))) = Some t" using r th by simp
  qed
qed

lemma gen_inv_keep:
  assumes inv: "gen_inv th pre st" and nc: "\<not> is_comment s" and pr: "parse_record s = Some (q, v)"
    and lastq: "recs pre \<noteq> []" "fst (last (recs pre)) = q"
  shows "gen_inv th (pre @ [s]) (st\<lparr>curr_pos := curr_pos st + length s\<rparr>)" (is "gen_inv _ _ ?st'")
proof (rule gen_invI)
  have r: "recs (pre @ [s]) = recs pre @ [(q, v)]"
    using nc pr by (simp add: recs_append recs_record)
  show "curr_pos ?st' = length (concat (pre @ [s]))" using gen_invD(1) [OF inv] by simp
  show "distinct (map fst (index ?st'))" using gen_invD(2) [OF inv] by simp
  have "q \<in> fst ` set (recs pre)" using lastq by (metis image_eqI last_in_set)
  then show "fst ` set (index ?st') = fst ` set (recs (pre @ [s]))"
    using gen_invD(3) [OF inv] r by auto
  show "cont_ok (pre @ [s]) q' c'" if "map_of (index ?st') q' = Some c'" for q' c'
    using that gen_inv_cont [OF inv] cont_ok_mono by simp
  show "\<exists>c t. map_of (index ?st') (fst (last (recs (pre @ [s])))) = Some c \<and>
               curr_idx ?st' = length (c_start c) \<and>
               prev_start ?st' = Some (snd (last (c_start c))) \<and>
               curr_threshold ?st' = Some t \<and>
               map_of th (fst (last (recs (pre @ [s])))) = Some t"
    using gen_inv_last [OF inv lastq(1)] lastq(2) r by simp
qed


lemma gen_inv_step:
  assumes inv: "gen_inv th pre st" and cont: "contiguous (map fst (recs (pre @ [s])))"
    and step: "gen_index_step th False st (Str s) = Inr st'"
  shows "gen_inv th (pre @ [s]) st'"
proof (cases "is_comment s \<or> s = []")
  case True
  from gen_index_step_skip [OF True, of th st] step
  have "st' = st\<lparr>curr_pos := curr_pos st + length s\<rparr>" by simp
  with gen_inv_skip [OF inv recs_comment [OF True]] show ?thesis by simp
next
  case False
  then have nc: "\<not> is_comment s" and ne: "s \<noteq> []" by simp_all
  show ?thesis
  proof (cases "parse_record s")
    case None
    from gen_index_step_bad [OF nc ne None, of th st] step show ?thesis by simp
  next
    case (Some r)
    obtain q v where r: "r = (q, v)" by (cases r)
    with Some have pr: "parse_record s = Some (q, v)" by simp
    have rc: "recs (pre @ [s]) = recs pre @ [(q, v)]"
      using nc pr by (simp add: recs_append recs_record)
    show ?thesis
    proof (cases "q \<in> fst ` set (recs pre)")
      case False
      then have none: "map_of (index st) q = None"
        using gen_invD(3) [OF inv] by (simp add: map_of_eq_None_iff)
      show ?thesis
      proof (cases "map_of th q")
        case None
        from step_first_missing [OF inv nc pr False None] step show ?thesis by simp
      next
        case (Some t)
        from step_first [OF inv nc pr False Some] step
        have "st' = \<lparr>index = add_entry (index st) q v (curr_pos st),
                curr_pos = curr_pos st + length s, curr_idx = 1,
                curr_threshold = Some t, prev_start = Some v\<rparr>" by simp
        moreover have "gen_inv th (pre @ [s]) \<lparr>index = add_entry (index st) q v (curr_pos st),
                curr_pos = curr_pos st + length s, curr_idx = 1,
                curr_threshold = Some t, prev_start = Some v\<rparr>"
          by (rule gen_inv_emit [OF inv nc pr Some]) (simp add: none)
        ultimately show ?thesis by simp
      qed
    next
      case True
      from cont rc have c2: "contiguous (map fst (recs pre) @ [q])" by simp
      from step_again [OF inv nc pr True c2] obtain c t where
        c: "map_of (index st) q = Some c" and t: "map_of th q = Some t"
        and ci: "curr_idx st = length (c_start c)" and lq: "fst (last (recs pre)) = q"
        and st: "gen_index_step th False st (Str s) =
             Inr (if v - snd (last (c_start c)) > t
                  then \<lparr>index = add_entry (index st) q v (curr_pos st),
                        curr_pos = curr_pos st + length s, curr_idx = curr_idx st + 1,
                        curr_threshold = Some t, prev_start = Some v\<rparr>
                  else st\<lparr>curr_pos := curr_pos st + length s\<rparr>)"
        by blast
      from True have ne': "recs pre \<noteq> []" by auto
      show ?thesis
      proof (cases "v - snd (last (c_start c)) > t")
        case True
        with st step have "st' = \<lparr>index = add_entry (index st) q v (curr_pos st),
                        curr_pos = curr_pos st + length s, curr_idx = curr_idx st + 1,
                        curr_threshold = Some t, prev_start = Some v\<rparr>" by simp
        moreover have "gen_inv th (pre @ [s]) \<lparr>index = add_entry (index st) q v (curr_pos st),
                        curr_pos = curr_pos st + length s, curr_idx = curr_idx st + 1,
                        curr_threshold = Some t, prev_start = Some v\<rparr>"
          by (rule gen_inv_emit [OF inv nc pr t]) (simp add: c ci)
        ultimately show ?thesis by simp
      next
        case False
        with st step have "st' = st\<lparr>curr_pos := curr_pos st + length s\<rparr>" by simp
        with gen_inv_keep [OF inv nc pr ne' lq] show ?thesis by simp
      qed
    qed
  qed
qed

lemma gen_loop_inv:
  "gen_index_loop th False st (map Str ls) = Inr st' \<Longrightarrow> gen_inv th pre st \<Longrightarrow>
   contiguous (map fst (recs (pre @ ls))) \<Longrightarrow> gen_inv th (pre @ ls) st'"
proof (induction ls arbitrary: pre st)
  case Nil
  then show ?case by simp
next
  case (Cons l ls)
  from Cons.prems(1) obtain st1 where s1: "gen_index_step th False st (Str l) = Inr st1"
    and rest: "gen_index_loop th False st1 (map Str ls) = Inr st'"
    by (auto split: sum.splits)
  have "recs (pre @ l # ls) = recs (pre @ [l]) @ recs ls"
    using recs_append [of "pre @ [l]" ls] by simp
  with Cons.prems(3) have c1: "contiguous (map fst (recs (pre @ [l])))"
    using contiguous_append [of "map fst (recs (pre @ [l]))" "map fst (recs ls)"] by simp
  from gen_inv_step [OF Cons.prems(2) c1 s1] have "gen_inv th (pre @ [l]) st1" .
  from Cons.IH [OF rest this] Cons.prems(3) show ?case by simp
qed




section \<open>Monotonicity of the index\<close>

lemma step_shape:
  assumes inv: "gen_inv th pre st" and cont: "contiguous (map fst (recs (pre @ [s])))"
    and step: "gen_index_step th False st (Str s) = Inr st'"
  shows "index st' = index st \<or>
         (\<exists>q v. index st' = add_entry (index st) q v (curr_pos st) \<and>
            (map_of (index st) q = None \<or>
             (\<exists>c t. map_of (index st) q = Some c \<and> map_of th q = Some t \<and>
                    t < v - snd (last (c_start c)))))"
proof (cases "is_comment s \<or> s = []")
  case True
  from gen_index_step_skip [OF True, of th st] step show ?thesis by auto
next
  case False
  then have nc: "\<not> is_comment s" and ne: "s \<noteq> []" by simp_all
  show ?thesis
  proof (cases "parse_record s")
    case None
    from gen_index_step_bad [OF nc ne None, of th st] step show ?thesis by simp
  next
    case (Some r)
    obtain q v where r: "r = (q, v)" by (cases r)
    with Some have pr: "parse_record s = Some (q, v)" by simp
    have rc: "recs (pre @ [s]) = recs pre @ [(q, v)]"
      using nc pr by (simp add: recs_append recs_record)
    show ?thesis
    proof (cases "q \<in> fst ` set (recs pre)")
      case False
      then have none: "map_of (index st) q = None"
        using gen_invD(3) [OF inv] by (simp add: map_of_eq_None_iff)
      show ?thesis
      proof (cases "map_of th q")
        case None
        from step_first_missing [OF inv nc pr False None] step show ?thesis by simp
      next
        case (Some t)
        from step_first [OF inv nc pr False Some] step
        have "index st' = add_entry (index st) q v (curr_pos st)" by auto
        with none show ?thesis by blast
      qed
    next
      case True
      from cont rc have c2: "contiguous (map fst (recs pre) @ [q])" by simp
      from step_again [OF inv nc pr True c2] obtain c t where
        c: "map_of (index st) q = Some c" and t: "map_of th q = Some t"
        and "curr_threshold st = Some t"
        and ci: "curr_idx st = length (c_start c)"
        and "prev_start st = Some (snd (last (c_start c)))"
        and lq: "fst (last (recs pre)) = q"
        and st: "gen_index_step th False st (Str s) =
             Inr (if v - snd (last (c_start c)) > t
                  then \<lparr>index = add_entry (index st) q v (curr_pos st),
                        curr_pos = curr_pos st + length s, curr_idx = curr_idx st + 1,
                        curr_threshold = Some t, prev_start = Some v\<rparr>
                  else st\<lparr>curr_pos := curr_pos st + length s\<rparr>)"
        by (elim exE conjE) (rule that)
      show ?thesis
      proof (cases "v - snd (last (c_start c)) > t")
        case True
        with st step have "index st' = add_entry (index st) q v (curr_pos st)" by auto
        with c t True show ?thesis by blast
      next
        case False
        with st step have "index st' = index st" by auto
        then show ?thesis by simp
      qed
    qed
  qed
qed

lemma sorted_wrt_le_last:
  fixes xs :: "int list"
  shows "sorted_wrt (<) xs \<Longrightarrow> x \<in> set xs \<Longrightarrow> x \<le> last xs"
proof (induction xs)
  case Nil
  then show ?case by simp
next
  case (Cons a xs)
  show ?case
  proof (cases "xs = []")
    case True
    with Cons.prems show ?thesis by simp
  next
    case False
    then have l: "last xs \<in> set xs" by simp
    show ?thesis
    proof (cases "x = a")
      case True
      from Cons.prems(1) l have "a < last xs" by simp
      with True False show ?thesis by simp
    next
      case ne: False
      with Cons.prems have "x \<in> set xs" "sorted_wrt (<) xs" by simp_all
      from Cons.IH [OF this(2) this(1)] False show ?thesis by simp
    qed
  qed
qed

lemma sorted_wrt_less_snoc:
  fixes xs :: "int list"
  assumes "sorted_wrt (<) xs" "xs \<noteq> []" "last xs < v"
  shows "sorted_wrt (<) (xs @ [v])"
proof -
  have "\<forall>x \<in> set xs. x < v"
    using sorted_wrt_le_last [OF assms(1)] assms(3) by fastforce
  with assms(1) show ?thesis by (simp add: sorted_wrt_append)
qed

lemma starts_incr_add:
  assumes "starts_incr idx"
    and "map_of idx q = None \<or> (\<exists>c. map_of idx q = Some c \<and> c_start c \<noteq> [] \<and> snd (last (c_start c)) < v)"
  shows "starts_incr (add_entry idx q v p)"
  unfolding starts_incr_def
proof (intro allI impI)
  fix q' c'
  assume m: "map_of (add_entry idx q v p) q' = Some c'"
  show "sorted_wrt (<) (map snd (c_start c'))"
  proof (cases "q' = q")
    case False
    with m have "map_of idx q' = Some c'" by (simp add: map_of_add_entry)
    with assms(1) show ?thesis by (simp add: starts_incr_def)
  next
    case True
    show ?thesis
    proof (cases "map_of idx q")
      case None
      with m True have "c' = \<lparr>c_start = [(0, v)], c_pos = [(0, p)]\<rparr>"
        by (simp add: map_of_add_entry)
      then show ?thesis by simp
    next
      case (Some c)
      with m True have c': "c' = \<lparr>c_start = c_start c @ [(length (c_start c), v)],
                            c_pos = c_pos c @ [(length (c_pos c), p)]\<rparr>"
        by (simp add: map_of_add_entry)
      from Some assms(2) have ne: "c_start c \<noteq> []" and lt: "snd (last (c_start c)) < v" by auto
      from Some assms(1) have "sorted_wrt (<) (map snd (c_start c))" by (simp add: starts_incr_def)
      from sorted_wrt_less_snoc [OF this, of v] ne lt
      have "sorted_wrt (<) (map snd (c_start c) @ [v])" by (simp add: last_map)
      with c' show ?thesis by simp
    qed
  qed
qed

lemma starts_incr_step:
  assumes inv: "gen_inv th pre st" and cont: "contiguous (map fst (recs (pre @ [s])))"
    and step: "gen_index_step th False st (Str s) = Inr st'"
    and nonneg: "\<And>q t. map_of th q = Some t \<Longrightarrow> 0 \<le> t"
    and incr: "starts_incr (index st)"
  shows "starts_incr (index st')"
proof -
  from step_shape [OF inv cont step]
  show ?thesis
  proof
    assume "index st' = index st"
    with incr show ?thesis by simp
  next
    assume "\<exists>q v. index st' = add_entry (index st) q v (curr_pos st) \<and>
            (map_of (index st) q = None \<or>
             (\<exists>c t. map_of (index st) q = Some c \<and> map_of th q = Some t \<and>
                    t < v - snd (last (c_start c))))"
    then obtain q v where a: "index st' = add_entry (index st) q v (curr_pos st)"
      and b: "map_of (index st) q = None \<or>
             (\<exists>c t. map_of (index st) q = Some c \<and> map_of th q = Some t \<and>
                    t < v - snd (last (c_start c)))"
      by blast
    have "map_of (index st) q = None \<or>
          (\<exists>c. map_of (index st) q = Some c \<and> c_start c \<noteq> [] \<and> snd (last (c_start c)) < v)"
    proof (cases "map_of (index st) q")
      case None
      then show ?thesis by simp
    next
      case (Some c)
      with b obtain t where t: "map_of th q = Some t" "t < v - snd (last (c_start c))" by auto
      from nonneg [OF t(1)] t(2) have "snd (last (c_start c)) < v" by simp
      moreover from cont_okD(1) [OF gen_inv_cont [OF inv Some]] have "c_start c \<noteq> []" .
      ultimately show ?thesis using Some by simp
    qed
    from starts_incr_add [OF incr this] a show ?thesis by simp
  qed
qed

lemma starts_incr_loop:
  "gen_index_loop th False st (map Str ls) = Inr st' \<Longrightarrow> gen_inv th pre st \<Longrightarrow>
   contiguous (map fst (recs (pre @ ls))) \<Longrightarrow> (\<And>q t. map_of th q = Some t \<Longrightarrow> 0 \<le> t) \<Longrightarrow>
   starts_incr (index st) \<Longrightarrow> starts_incr (index st')"
proof (induction ls arbitrary: pre st)
  case Nil
  then show ?case by simp
next
  case (Cons l ls)
  from Cons.prems(1) obtain st1 where s1: "gen_index_step th False st (Str l) = Inr st1"
    and rest: "gen_index_loop th False st1 (map Str ls) = Inr st'"
    by (auto split: sum.splits)
  have "recs (pre @ l # ls) = recs (pre @ [l]) @ recs ls"
    using recs_append [of "pre @ [l]" ls] by simp
  with Cons.prems(3) have c1: "contiguous (map fst (recs (pre @ [l])))"
    using contiguous_append [of "map fst (recs (pre @ [l]))" "map fst (recs ls)"] by simp
  from gen_inv_step [OF Cons.prems(2) c1 s1] have i1: "gen_inv th (pre @ [l]) st1" .
  from starts_incr_step [OF Cons.prems(2) c1 s1 Cons.prems(4) Cons.prems(5)]
  have "starts_incr (index st1)" .
  from Cons.IH [OF rest i1 _ Cons.prems(4) this] Cons.prems(3) show ?case by simp
qed


lemma lines_of_nonempty:
  "s \<noteq> [] \<Longrightarrow> lines_of s = takeline s # lines_of (drop (length (takeline s)) s)"
  by (subst lines_of.simps) simp

lemma lines_of_empty [simp]: "lines_of [] = []"
  by (subst lines_of.simps) simp

lemma gzip_get_thresholds:
  assumes "inflated f \<noteq> []"
  shows "get_thresholds (gzip_open f) p False = Inl TypeError"
proof -
  from assms have t: "takeline (inflated f) \<noteq> []" by (simp add: takeline_empty)
  have "readlines (seek (gzip_open f) 0)
      = Bytes (takeline (inflated f))
          # map Bytes (lines_of (drop (length (takeline (inflated f))) (inflated f)))"
    using lines_of_nonempty [OF assms]
    by (simp add: readlines_def seek_def gzip_open_def as_line_def)
  moreover have "thresholds_step False [] (Bytes (takeline (inflated f))) = Inl TypeError"
    using t by (simp add: thresholds_step_def)
  ultimately show ?thesis by (simp add: get_thresholds_def)
qed

lemma is_version_3_gz_nonempty:
  assumes "is_version_3 f True = Inr b"
  shows "inflated f \<noteq> []"
proof
  assume "inflated f = []"
  then have "is_version_3 f True = Inl IndexError"
    by (simp add: is_version_3_def gzip_open_def readline_def as_line_def strip_def
        split_ws_def py_nth_def)
  with assms show False by simp
qed

lemma gzip_init_fails:
  assumes "is_zipped f = Inr True"
  shows "isl (GffFile_init f p)"
proof (cases "is_version_3 f True")
  case (Inl e)
  with assms show ?thesis by (simp add: GffFile_init_def)
next
  case (Inr b)
  from gzip_get_thresholds [OF is_version_3_gz_nonempty [OF Inr]]
  have "gen_index (gzip_open f) 1 False = Inl TypeError"
    by (simp add: gen_index_def)
  with assms Inr show ?thesis by (simp add: GffFile_init_def)
qed

lemma GffFile_init_plain:
  assumes "GffFile_init f p = Inr s"
  shows "gen_index (open_text f) 0 False = Inr (s_index s, s_handle s)"
proof (cases "is_zipped f")
  case (Inl e)
  with assms show ?thesis by (simp add: GffFile_init_def)
next
  case (Inr gz)
  show ?thesis
  proof (cases gz)
    case True
    with Inr gzip_init_fails [of f p] assms show ?thesis by simp
  next
    case False
    with Inr assms show ?thesis
      by (auto simp: GffFile_init_def split: sum.splits if_splits)
  qed
qed

lemma readlines_text: "\<not> binary h \<Longrightarrow> readlines (seek h 0) = map Str (lines_of (content h))"
  by (simp add: readlines_def seek_def as_line_def)

lemma gen_index_text:
  assumes "gen_index h p False = Inr (idx, h')" "\<not> binary h"
  shows "\<exists>th st. get_thresholds h p False = Inr (th, seek h 0) \<and>
           gen_index_loop th False gen_init (map Str (lines_of (content h))) = Inr st \<and>
           idx = index st"
proof -
  from assms(1) obtain th h1 where g: "get_thresholds h p False = Inr (th, h1)"
    by (auto simp: gen_index_def split: sum.splits)
  then have h1: "h1 = seek h 0"
    by (auto simp: get_thresholds_def split: sum.splits)
  from assms(1) g h1 obtain st where
    "gen_index_loop th False gen_init (readlines (seek h 0)) = Inr st" "idx = index st"
    by (auto simp: gen_index_def split: sum.splits)
  moreover have "readlines (seek (seek h 0) 0) = readlines (seek h 0)" by (simp add: seek_def)
  ultimately show ?thesis using g h1 readlines_text [OF assms(2)] by auto
qed

lemma diffs_add_nonempty:
  "\<forall>g \<in> set d. snd g \<noteq> [] \<Longrightarrow> \<forall>g \<in> set (diffs_add d q v). snd g \<noteq> []"
proof (induction d)
  case Nil
  then show ?case by (simp add: OrderedSet_add_def)
next
  case (Cons g d)
  obtain k xs where g: "g = (k, xs)" by (cases g)
  have "OrderedSet_add xs v \<noteq> []" by (auto simp: OrderedSet_add_def)
  with Cons g show ?case by auto
qed

lemma thresholds_step_cases:
  assumes "thresholds_step gz d l = Inr d'"
  shows "d' = d \<or> (\<exists>q v. d' = diffs_add d q v)"
proof -
  obtain line where line: "(if gz then decode_ascii l else Inr l) = Inr line"
    using assms by (cases "if gz then decode_ascii l else Inr l") (auto simp: thresholds_step_def)
  show ?thesis
  proof (cases "py_text line = []")
    case True
    with assms line show ?thesis by (simp add: thresholds_step_def)
  next
    case False
    then obtain hash where h: "startswith_hash line = Inr hash"
      using assms line by (cases "startswith_hash line") (auto simp: thresholds_step_def)
    show ?thesis
    proof (cases hash)
      case True
      with assms line False h show ?thesis by (simp add: thresholds_step_def)
    next
      case nh: False
      with assms line False h show ?thesis
        by (auto simp: thresholds_step_def split: list.splits option.splits)
    qed
  qed
qed

lemma thresholds_loop_groups:
  "thresholds_loop gz d ls = Inr d' \<Longrightarrow> \<forall>g \<in> set d. snd g \<noteq> [] \<Longrightarrow> \<forall>g \<in> set d'. snd g \<noteq> []"
proof (induction ls arbitrary: d)
  case Nil
  then show ?case by simp
next
  case (Cons l ls)
  from Cons.prems(1) obtain d1 where s: "thresholds_step gz d l = Inr d1"
    and r: "thresholds_loop gz d1 ls = Inr d'"
    by (auto split: sum.splits)
  from thresholds_step_cases [OF s] Cons.prems(2) diffs_add_nonempty
  have "\<forall>g \<in> set d1. snd g \<noteq> []" by metis
  from Cons.IH [OF r this] show ?case .
qed

lemma mean_zero: "xs \<noteq> [] \<Longrightarrow> mean_astype_int (series_diff 0 xs) = Inr 0"
proof -
  assume "xs \<noteq> []"
  have "series_diff 0 xs = map (\<lambda>i. 0) [0..<length xs]" by (simp add: series_diff_def)
  moreover have "sum_list (map (\<lambda>i. 0::int) [0..<length xs]) = 0" by simp
  ultimately show ?thesis using \<open>xs \<noteq> []\<close> by (simp add: mean_astype_int_def Let_def)
qed

lemma get_average_diffs_zero:
  "get_average_diffs d 0 = Inr th \<Longrightarrow> \<forall>g \<in> set d. snd g \<noteq> [] \<Longrightarrow> \<forall>r \<in> set th. snd r = 0"
proof (induction d arbitrary: th)
  case Nil
  then show ?case by simp
next
  case (Cons g d)
  obtain q xs where g: "g = (q, xs)" by (cases g)
  with Cons.prems(2) have "xs \<noteq> []" by simp
  from mean_zero [OF this] Cons.prems(1) g obtain th' where
    "get_average_diffs d 0 = Inr th'" "th = (q, 0) # th'"
    by (auto split: sum.splits)
  with Cons.IH [of th'] Cons.prems(2) show ?case by simp
qed

lemma thresholds_zero:
  assumes "get_thresholds h 0 gz = Inr (th, h')" "map_of th q = Some t"
  shows "t = 0"
proof -
  from assms(1) obtain d where d: "thresholds_loop gz [] (readlines (seek h 0)) = Inr d"
    and a: "get_average_diffs d 0 = Inr th"
    by (auto simp: get_thresholds_def split: sum.splits)
  from thresholds_loop_groups [OF d] have "\<forall>g \<in> set d. snd g \<noteq> []" by simp
  from get_average_diffs_zero [OF a this] map_of_SomeD [OF assms(2)] show ?thesis by fastforce
qed

text \<open>
  C3. In the index of a session that \<open>GffFile\<close> has opened on a file whose records of
  one seqid are contiguous, every seqid has the local indices \<open>0, 1, 2, ...\<close> in order,
  for the starts and for the offsets; the starts are strictly increasing and so are
  the offsets; and the first entry holds the offset and the start of the first
  record of the seqid in the file. (The thresholds of an opened file are all 0, so
  the order of the starts in the file does not matter for this.)
\<close>

theorem index_monotone:
  assumes "GffFile_init filename period = Inr s"
    and "contiguous (map fst (recs (lines_of (raw filename))))"
    and "map_of (s_index s) q = Some c"
  shows "c_start c \<noteq> [] \<and> length (c_pos c) = length (c_start c) \<and>
         map fst (c_start c) = [0..<length (c_start c)] \<and>
         map fst (c_pos c) = [0..<length (c_pos c)] \<and>
         sorted_wrt (<) (map snd (c_start c)) \<and>
         sorted_wrt (<) (map snd (c_pos c)) \<and>
         first_record q 0 (lines_of (raw filename)) = Some (snd (hd (c_pos c)), snd (hd (c_start c)))"
proof -
  have nb: "\<not> binary (open_text filename)" and ct: "content (open_text filename) = raw filename"
    by (simp_all add: open_text_def)
  from gen_index_text [OF GffFile_init_plain [OF assms(1)] nb] ct obtain th st where
    th: "get_thresholds (open_text filename) 0 False = Inr (th, seek (open_text filename) 0)"
    and run: "gen_index_loop th False gen_init (map Str (lines_of (raw filename))) = Inr st"
    and idx: "s_index s = index st"
    by auto
  from assms(2) have c0: "contiguous (map fst (recs ([] @ lines_of (raw filename))))" by simp
  from gen_loop_inv [OF run gen_inv_init c0] have inv: "gen_inv th (lines_of (raw filename)) st"
    by simp
  have nonneg: "0 \<le> t" if "map_of th q = Some t" for q t
    using thresholds_zero [OF th that] by simp
  have "starts_incr (index gen_init)" by (simp add: starts_incr_def gen_init_def)
  from starts_incr_loop [OF run gen_inv_init c0 nonneg this]
  have "sorted_wrt (<) (map snd (c_start c))"
    using assms(3) idx by (simp add: starts_incr_def)
  with cont_okD [OF gen_inv_cont [OF inv, of q c]] assms(3) idx show ?thesis by simp
qed

theorem index_monotone_witness:
  "GffFile_init (plain_file three_records) 3 = Inr three_records_session
   \<and> contiguous (map fst (recs (lines_of (raw (plain_file three_records)))))
   \<and> map_of (s_index three_records_session) ''chr1''
       = Some \<lparr>c_start = [(0, 100), (1, 300), (2, 500)], c_pos = [(0, 16), (1, 47), (2, 78)]\<rparr>
   \<and> sorted_wrt (<) (map snd [(0::nat, 100::int), (1, 300), (2, 500)])
   \<and> sorted_wrt (<) (map snd [(0::nat, 16::nat), (1, 47), (2, 78)])
   \<and> first_record ''chr1'' 0 (lines_of (raw (plain_file three_records))) = Some (16, 100)"
proof -
  have h1: "GffFile_init (plain_file three_records) 3 = Inr three_records_session"
    by code_simp
  have h2: "contiguous (map fst (recs (lines_of (raw (plain_file three_records)))))"
    by code_simp
  have h3: "map_of (s_index three_records_session) ''chr1''
       = Some \<lparr>c_start = [(0, 100), (1, 300), (2, 500)], c_pos = [(0, 16), (1, 47), (2, 78)]\<rparr>"
    by (simp add: three_records_session_def)
  from index_monotone [OF h1 h2 h3] h1 h2 h3 show ?thesis by simp
qed

section \<open>Thresholds and the index pass\<close>










section \<open>Region fetch from the checkpoint\<close>








lemma place_place [simp]: "place (place s m) n = place s n"
  by (simp add: place_def)

lemma place_fields [simp]:
  "content (s_handle (place s n)) = content (s_handle s)"
  "binary (s_handle (place s n)) = binary (s_handle s)"
  "cursor (s_handle (place s n)) = n"
  "s_index (place s n) = s_index s"
  by (simp_all add: place_def)












lemma block_no_q: "\<forall>r \<in> set rs. fst r \<noteq> q \<Longrightarrow> block q rs"
  by (induction rs) auto





lemma ascending_append: "ascending (xs @ ys) \<Longrightarrow> ascending ys"
proof (induction xs rule: ascending.induct)
  case 1
  then show ?case by simp
next
  case (2 r)
  then show ?case by (cases ys) simp_all
next
  case (3 r r' rs)
  then show ?case by simp
qed

lemma block_of_sorted:
  "contiguous (map fst rs) \<Longrightarrow> ascending rs \<Longrightarrow> rs \<noteq> [] \<Longrightarrow> fst (hd rs) = q \<Longrightarrow> block q rs"
proof (induction rs rule: ascending.induct)
  case 1
  then show ?case by simp
next
  case (2 r)
  then show ?case by simp
next
  case (3 r r' rs)
  from "3.prems" have fr: "fst r = q" and c: "contiguous (map fst (r' # rs))"
    and a: "ascending (r' # rs)" and le: "fst r = fst r' \<longrightarrow> snd r \<le> snd r'"
    and alt: "fst r' = fst r \<or> fst r \<notin> set (map fst (r' # rs))"
    by simp_all
  show ?case
  proof (cases "fst r' = q")
    case True
    from "3.IH" [OF c a] True have b: "block q (r' # rs)" by simp
    with True have "\<forall>x \<in> set rs. fst x = q \<longrightarrow> snd r' \<le> snd x" by simp
    moreover from le fr True have "snd r \<le> snd r'" by simp
    ultimately have "\<forall>x \<in> set (r' # rs). fst x = q \<longrightarrow> snd r \<le> snd x" by fastforce
    with b fr show ?thesis by simp
  next
    case False
    with alt fr have "q \<notin> set (map fst (r' # rs))" by auto
    then have nq: "\<forall>x \<in> set (r' # rs). fst x \<noteq> q" by auto
    from block_no_q [OF this] nq fr show ?thesis by simp
  qed
qed













section \<open>Thresholds of a sorted file\<close>

lemma thresholds_loop_fold:
  "thresholds_loop False d (map Str ls) = Inr d' \<Longrightarrow>
   d' = foldl (\<lambda>d r. diffs_add d (fst r) (snd r)) d (recs ls)"
proof (induction ls arbitrary: d)
  case Nil
  then show ?case by (simp add: recs_def map_filter_def)
next
  case (Cons l ls)
  from Cons.prems obtain d1 where s: "thresholds_step False d (Str l) = Inr d1"
    and r: "thresholds_loop False d1 (map Str ls) = Inr d'"
    by (auto split: sum.splits)
  show ?case
  proof (cases "l = [] \<or> is_comment l")
    case True
    with s have "d1 = d" by (simp add: thresholds_step_text)
    moreover from True have "recs [l] = []" by (auto intro: recs_comment)
    ultimately show ?thesis using Cons.IH [OF r] by (simp add: recs_Cons [of l ls])
  next
    case False
    with s obtain q v where pr: "parse_record l = Some (q, v)" and d1: "d1 = diffs_add d q v"
      by (auto simp: thresholds_step_text split: option.splits)
    from False pr have "recs [l] = [(q, v)]" by (simp add: recs_record)
    with Cons.IH [OF r] d1 show ?thesis by (simp add: recs_Cons [of l ls])
  qed
qed

lemma diffs_add_cases:
  "g \<in> set (diffs_add d q v) \<Longrightarrow>
   g \<in> set d \<or> (\<exists>xs. (q, xs) \<in> set d \<and> g = (q, OrderedSet_add xs v)) \<or> g = (q, [v])"
proof (induction d)
  case Nil
  then show ?case by (simp add: OrderedSet_add_def)
next
  case (Cons a d)
  obtain k xs where a: "a = (k, xs)" by (cases a)
  show ?case
  proof (cases "k = q")
    case True
    with Cons.prems a show ?thesis by auto
  next
    case False
    with Cons.prems a have "g = a \<or> g \<in> set (diffs_add d q v)" by auto
    with Cons.IH show ?thesis by auto
  qed
qed

lemma ascending_prefix: "ascending (xs @ ys) \<Longrightarrow> ascending xs"
proof (induction xs rule: ascending.induct)
  case 1
  then show ?case by simp
next
  case (2 r)
  then show ?case by simp
next
  case (3 r r' rs)
  then show ?case by simp
qed

lemma earlier_start_le:
  assumes c: "contiguous (map fst (rs @ [(q, v)]))" and a: "ascending (rs @ [(q, v)])"
    and m: "(q, v') \<in> set rs"
  shows "v' \<le> v"
proof -
  from m obtain xs ys where rs: "rs = xs @ (q, v') # ys" by (meson split_list)
  let ?suf = "(q, v') # ys @ [(q, v)]"
  from c rs have "contiguous (map fst xs @ map fst ?suf)" by simp
  from contiguous_append [OF this] have c1: "contiguous (map fst ?suf)" by simp
  from a rs have "ascending (xs @ ?suf)" by simp
  from ascending_append [OF this] have a1: "ascending ?suf" .
  from block_of_sorted [OF c1 a1] have "block q ?suf" by simp
  then show ?thesis by simp
qed

lemma groups_ok_step:
  assumes g: "groups_ok seen d" and c: "contiguous (map fst (seen @ [(q, v)]))"
    and a: "ascending (seen @ [(q, v)])"
  shows "groups_ok (seen @ [(q, v)]) (diffs_add d q v)"
  unfolding groups_ok_def
proof
  fix g'
  assume "g' \<in> set (diffs_add d q v)"
  from diffs_add_cases [OF this]
  consider "g' \<in> set d" | xs where "(q, xs) \<in> set d" "g' = (q, OrderedSet_add xs v)"
    | "g' = (q, [v])" by blast
  then show "sorted_wrt (<) (snd g') \<and> (\<forall>x \<in> set (snd g'). (fst g', x) \<in> set (seen @ [(q, v)]))"
  proof cases
    case 1
    with g show ?thesis by (auto simp: groups_ok_def)
  next
    case 2
    from g 2(1) have s: "sorted_wrt (<) xs" and mem: "\<forall>x \<in> set xs. (q, x) \<in> set seen"
      by (auto simp: groups_ok_def)
    show ?thesis
    proof (cases "v \<in> set xs")
      case True
      with 2(2) s mem show ?thesis by (auto simp: OrderedSet_add_def)
    next
      case False
      have "\<forall>x \<in> set xs. x < v"
      proof
        fix x
        assume x: "x \<in> set xs"
        with mem have "(q, x) \<in> set seen" by simp
        from earlier_start_le [OF c a this] have "x \<le> v" .
        moreover from x False have "x \<noteq> v" by auto
        ultimately show "x < v" by simp
      qed
      with s have "sorted_wrt (<) (xs @ [v])" by (simp add: sorted_wrt_append)
      with 2(2) False mem show ?thesis by (auto simp: OrderedSet_add_def)
    qed
  next
    case 3
    then show ?thesis by simp
  qed
qed

lemma groups_ok_fold:
  "groups_ok seen d \<Longrightarrow> contiguous (map fst (seen @ rs)) \<Longrightarrow> ascending (seen @ rs) \<Longrightarrow>
   groups_ok (seen @ rs) (foldl (\<lambda>d r. diffs_add d (fst r) (snd r)) d rs)"
proof (induction rs arbitrary: seen d)
  case Nil
  then show ?case by simp
next
  case (Cons r rs)
  obtain q v where r: "r = (q, v)" by (cases r)
  from Cons.prems(2) have "contiguous (map fst (seen @ [r]) @ map fst rs)" by simp
  from contiguous_append [OF this] have c1: "contiguous (map fst (seen @ [r]))" by simp
  from Cons.prems(3) have "ascending ((seen @ [r]) @ rs)" by simp
  from ascending_prefix [OF this] have a1: "ascending (seen @ [r])" .
  from groups_ok_step [OF Cons.prems(1)] c1 a1 r
  have "groups_ok (seen @ [r]) (diffs_add d (fst r) (snd r))" by simp
  from Cons.IH [OF this] Cons.prems(2,3) show ?case by simp
qed

lemma series_diff_nonneg:
  assumes "sorted_wrt (<) xs" "x \<in> set (series_diff p xs)"
  shows "0 \<le> x"
proof -
  from assms(2) obtain i where i: "p \<le> i" "i < length xs" and x: "x = xs ! i - xs ! (i - p)"
    by (auto simp: series_diff_def)
  from assms(1) have "sorted xs" by (rule strict_sorted_imp_sorted)
  from sorted_nth_mono [OF this, of "i - p" i] i have "xs ! (i - p) \<le> xs ! i" by simp
  with x show ?thesis by simp
qed

lemma mean_nonneg:
  assumes "mean_astype_int ds = Inr t" "\<forall>x \<in> set ds. 0 \<le> x"
  shows "0 \<le> t"
proof (cases "ds = []")
  case True
  with assms(1) show ?thesis by (simp add: mean_astype_int_def nan_astype_int_def)
next
  case False
  from assms(2) have "0 \<le> sum_list ds" by (simp add: sum_list_nonneg)
  moreover from False have "0 < int (length ds)" by simp
  ultimately have "0 \<le> sum_list ds div int (length ds)"
    by (simp add: pos_imp_zdiv_nonneg_iff)
  with assms(1) False \<open>0 \<le> sum_list ds\<close> show ?thesis
    by (auto simp: mean_astype_int_def Let_def)
qed

lemma get_average_diffs_entry:
  "get_average_diffs d p = Inr th \<Longrightarrow> (q, t) \<in> set th \<Longrightarrow>
   \<exists>xs. (q, xs) \<in> set d \<and> mean_astype_int (series_diff p xs) = Inr t"
proof (induction d arbitrary: th)
  case Nil
  then show ?case by simp
next
  case (Cons g d)
  obtain k xs where g: "g = (k, xs)" by (cases g)
  with Cons.prems(1) obtain t' th' where m: "mean_astype_int (series_diff p xs) = Inr t'"
    and r: "get_average_diffs d p = Inr th'" and th: "th = (k, t') # th'"
    by (auto split: sum.splits)
  show ?case
  proof (cases "(q, t) = (k, t')")
    case True
    with m g show ?thesis by auto
  next
    case False
    with Cons.prems(2) th have "(q, t) \<in> set th'" by auto
    from Cons.IH [OF r this] show ?thesis by auto
  qed
qed

lemma thresholds_nonneg_sorted:
  assumes "\<not> binary h" and "get_thresholds h p False = Inr (th, h')"
    and "contiguous (map fst (recs (lines_of (content h))))"
    and "ascending (recs (lines_of (content h)))"
    and "map_of th q = Some t"
  shows "0 \<le> t"
proof -
  let ?rs = "recs (lines_of (content h))"
  from assms(2) obtain d where d: "thresholds_loop False [] (readlines (seek h 0)) = Inr d"
    and a: "get_average_diffs d p = Inr th"
    by (auto simp: get_thresholds_def split: sum.splits)
  from d readlines_text [OF assms(1)]
  have "thresholds_loop False [] (map Str (lines_of (content h))) = Inr d" by simp
  from thresholds_loop_fold [OF this]
  have df: "d = foldl (\<lambda>d r. diffs_add d (fst r) (snd r)) [] ?rs" .
  have "groups_ok [] []" by (simp add: groups_ok_def)
  from groups_ok_fold [OF this, of ?rs] assms(3,4) df have g: "groups_ok ?rs d" by simp
  from map_of_SomeD [OF assms(5)] have "(q, t) \<in> set th" .
  from get_average_diffs_entry [OF a this] obtain xs where xs: "(q, xs) \<in> set d"
    and m: "mean_astype_int (series_diff p xs) = Inr t" by blast
  from g xs have "sorted_wrt (<) xs" by (auto simp: groups_ok_def)
  with series_diff_nonneg have "\<forall>x \<in> set (series_diff p xs). 0 \<le> x" by blast
  from mean_nonneg [OF m this] show ?thesis .
qed

text \<open>
  The monotonicity of the index for any \<open>periods\<close>, on a text file that is contiguous
  and sorted: all thresholds are then non-negative. (This one rests on the conversion
  of a NaN mean raising, so that no table with such an entry is ever returned.)
\<close>

lemma gen_index_monotone:
  assumes nb: "\<not> binary h" and gi: "gen_index h p False = Inr (idx, h')"
    and cont: "contiguous (map fst (recs (lines_of (content h))))"
    and asc: "ascending (recs (lines_of (content h)))"
    and c: "map_of idx q = Some c"
  shows "c_start c \<noteq> [] \<and> length (c_pos c) = length (c_start c) \<and>
         map fst (c_start c) = [0..<length (c_start c)] \<and>
         map fst (c_pos c) = [0..<length (c_pos c)] \<and>
         sorted_wrt (<) (map snd (c_start c)) \<and>
         sorted_wrt (<) (map snd (c_pos c)) \<and>
         first_record q 0 (lines_of (content h)) = Some (snd (hd (c_pos c)), snd (hd (c_start c)))"
proof -
  from gen_index_text [OF gi nb] obtain th st where
    th: "get_thresholds h p False = Inr (th, seek h 0)"
    and run: "gen_index_loop th False gen_init (map Str (lines_of (content h))) = Inr st"
    and idx: "idx = index st"
    by auto
  from cont have c0: "contiguous (map fst (recs ([] @ lines_of (content h))))" by simp
  from gen_loop_inv [OF run gen_inv_init c0] have inv: "gen_inv th (lines_of (content h)) st"
    by simp
  have nonneg: "0 \<le> t" if "map_of th q = Some t" for q t
    using thresholds_nonneg_sorted [OF nb th cont asc that] .
  have "starts_incr (index gen_init)" by (simp add: starts_incr_def gen_init_def)
  from starts_incr_loop [OF run gen_inv_init c0 nonneg this]
  have "sorted_wrt (<) (map snd (c_start c))"
    using c idx by (simp add: starts_incr_def)
  with cont_okD [OF gen_inv_cont [OF inv, of q c]] c idx show ?thesis by simp
qed


end
